theory Spec2Isabelle
  imports Complex_Main
begin

section \<open>The rate limiter \<open>ApiCallLimiter\<close> (src/api/call-deduplicator.ts)\<close>

text \<open>
  The class is written for the single-threaded event loop of Node.js. Every piece of code
  that runs without an \<open>await\<close> in between is one atomic step of the model; the steps are
  the functions below, and \<open>step\<close>/\<open>run\<close> at the end string them together. The clock
  \<open>Date.now()\<close> is a parameter \<open>now\<close> of each step (all reads of the clock inside one
  synchronous step are taken to be the same instant). Rates and times are JavaScript
  numbers that hold integers here, modelled as \<open>int\<close>.
\<close>

subsection \<open>Data\<close>

text \<open>The three \<open>new Error(...)\<close> of the class, named after their messages.\<close>

datatype error =
    RequestsPerSecondNotPositive   \<comment> \<open>\<open>'requestsPerSecond must be > 0'\<close>\<close>
  | DurationNotPositive            \<comment> \<open>\<open>'durationMs must be > 0'\<close>\<close>
  | RequestTimeout                 \<comment> \<open>\<open>'request timeout'\<close>\<close>

text \<open>The promise a \<open>requestSlot\<close> call awaits: it settles once.\<close>

datatype promise = Pending | Fulfilled | Rejected error

text \<open>\<open>RequestRunning\<close>: \<open>endedAt: number | null\<close>.\<close>

record RequestRunning =
  startedAt :: int
  endedAt :: "int option"

text \<open>
  \<open>RequestOptions\<close>: both fields optional. At run time \<open>priority\<close> is whatever string the
  caller passes (the type \<open>Priority\<close> is erased), so it is a \<open>string option\<close>.
\<close>

record RequestOptions =
  priority :: "string option"
  timeoutMs :: "int option"

text \<open>
  The fields of the class, then what the runtime holds for it. A waiting request
  \<open>{ resolve, reject }\<close> is the number of the promise its two closures settle. A running
  request is an object; the Set \<open>requestsRunning\<close> holds it under its identity, here the
  number of the request it was created for, in insertion order. An object deleted from the
  Set is reachable from its release closure only, so a write to it changes nothing the
  limiter reads.
\<close>

record limiter =
  maxRequestsPerSecond :: int
  reductionNumber :: int
  requestsPerSecond :: int
  reduceLimitTimeout :: "int option"    \<comment> \<open>the restoration timer (its due time), or \<open>null\<close>\<close>
  reduceLimitTimestamp :: int
  requestsHigh :: "nat list"
  requestsNormal :: "nat list"
  requestsLow :: "nat list"
  requestsRunning :: "(nat \<times> RequestRunning) list"
  isProcessing :: bool
  promises :: "nat \<Rightarrow> promise"           \<comment> \<open>state of the promise of each request\<close>
  nextRequest :: nat                     \<comment> \<open>number of the next promise to be created\<close>
  timeoutHandles :: "nat \<Rightarrow> int option"  \<comment> \<open>\<open>timeoutHandle\<close> of each request: due time while armed\<close>
  continuations :: "nat list"            \<comment> \<open>microtasks: granted requests whose \<open>await\<close> has yet to resume\<close>
  sleeping :: "int option"               \<comment> \<open>\<open>processQueue\<close> suspended in its 50 ms sleep (due time)\<close>
  immediates :: nat                      \<comment> \<open>pending \<open>setImmediate(() => this.processQueue())\<close>\<close>

subsection \<open>Constructor\<close>

text \<open>The field initialisers and the assignments of the constructor.\<close>

definition initial :: "int \<Rightarrow> limiter" where
  "initial rps =
     \<lparr> maxRequestsPerSecond = rps,
       reductionNumber = max 1 (rps div 10),
       requestsPerSecond = rps,
       reduceLimitTimeout = None,
       reduceLimitTimestamp = 0,
       requestsHigh = [],
       requestsNormal = [],
       requestsLow = [],
       requestsRunning = [],
       isProcessing = False,
       promises = (\<lambda>_. Pending),
       nextRequest = 0,
       timeoutHandles = (\<lambda>_. None),
       continuations = [],
       sleeping = None,
       immediates = 0 \<rparr>"

definition newApiCallLimiter :: "int \<Rightarrow> error + limiter" where
  "newApiCallLimiter rps =
     (if rps \<le> 0 then Inl RequestsPerSecondNotPositive else Inr (initial rps))"

text \<open>
  The older class \<open>CallLimiter\<close> (unnamed/part_004) computes
  \<open>Math.floor(maxRequestsPerSecond * (reductionPercentage / 100))\<close>, with no lower bound.
  The arithmetic here is exact; the source's is binary64, which agrees where every
  intermediate value is representable (as at \<open>1\<close> and \<open>25\<close>: \<open>0.25\<close>) and not
  everywhere else (at \<open>100\<close> and \<open>29\<close> the source gives \<open>28\<close>, this definition \<open>29\<close>).
  It is evaluated at \<open>1\<close> and \<open>25\<close> only.
\<close>

definition CallLimiter_reductionNumber :: "int \<Rightarrow> int \<Rightarrow> int" where
  "CallLimiter_reductionNumber maxRate reductionPercentage =
     \<lfloor>(of_int maxRate :: rat) * (of_int reductionPercentage / 100)\<rfloor>"

subsection \<open>Temporary reduction of the rate\<close>

text \<open>
  \<open>reduceLimitTemporary\<close>: the guard, the debounce, then the timer is replaced (an armed
  one is cleared first) and the rate reduced. \<open>CallLimiter.reduceLimitTemporary\<close> is the
  same text with a \<open>console.warn\<close> in the debounce branch.
\<close>

definition reduceLimitTemporary :: "int \<Rightarrow> int \<Rightarrow> limiter \<Rightarrow> error + limiter" where
  "reduceLimitTemporary durationMs now s =
     (if durationMs \<le> 0 then Inl DurationNotPositive
      else if now - reduceLimitTimestamp s < 1000 then Inr s
      else Inr (s\<lparr> reduceLimitTimestamp := now,
                    reduceLimitTimeout := Some (now + durationMs),
                    requestsPerSecond := max 1 (requestsPerSecond s - reductionNumber s) \<rparr>))"

text \<open>The callback of the restoration timer; it runs once the timer is due.\<close>

definition restoreLimit :: "int \<Rightarrow> limiter \<Rightarrow> limiter" where
  "restoreLimit now s =
     (case reduceLimitTimeout s of
        None \<Rightarrow> s
      | Some due \<Rightarrow>
          if due \<le> now
          then s\<lparr> requestsPerSecond := maxRequestsPerSecond s, reduceLimitTimeout := None \<rparr>
          else s)"

text \<open>
  \<open>RateLimiter.reduceTemporaryRateLimit\<close> (unnamed/part_005) has no debounce and takes a
  quarter of the maximum; \<open>Math.ceil\<close> of an integer is the integer.
\<close>

definition RateLimiter_reduce :: "int \<Rightarrow> int \<Rightarrow> int" where
  "RateLimiter_reduce maxRate rate = max 1 (rate - maxRate div 4)"

subsection \<open>Capacity\<close>

text \<open>
  \<open>getAvailableSlots\<close> first deletes from the Set every request with a truthy \<open>endedAt\<close>
  older than one second, and every request with a truthy \<open>startedAt\<close> older than 65
  seconds (a number is truthy when it is not \<open>0\<close>).
\<close>

definition stale :: "int \<Rightarrow> RequestRunning \<Rightarrow> bool" where
  "stale now r \<longleftrightarrow>
     (case endedAt r of None \<Rightarrow> False | Some e \<Rightarrow> e \<noteq> 0 \<and> e < now - 1000)
     \<or> (startedAt r \<noteq> 0 \<and> startedAt r < now - 65000)"

definition getAvailableSlots :: "int \<Rightarrow> limiter \<Rightarrow> int \<times> limiter" where
  "getAvailableSlots now s =
     (let s' = s\<lparr> requestsRunning := filter (\<lambda>(k, r). \<not> stale now r) (requestsRunning s) \<rparr>
      in (max 0 (requestsPerSecond s' - int (length (requestsRunning s'))), s'))"

subsection \<open>Promises\<close>

text \<open>\<open>resolve\<close> and \<open>reject\<close> settle a pending promise and do nothing to a settled one.
  Fulfilling the promise queues the rest of \<open>requestSlot\<close> as a microtask.\<close>

definition resolve :: "nat \<Rightarrow> limiter \<Rightarrow> limiter" where
  "resolve k s =
     (if promises s k = Pending
      then s\<lparr> promises := (promises s)(k := Fulfilled), continuations := continuations s @ [k] \<rparr>
      else s)"

definition reject :: "nat \<Rightarrow> error \<Rightarrow> limiter \<Rightarrow> limiter" where
  "reject k e s =
     (if promises s k = Pending then s\<lparr> promises := (promises s)(k := Rejected e) \<rparr> else s)"

subsection \<open>The queue\<close>

text \<open>
  \<open>this.requestsHigh.shift() || this.requestsNormal.shift() || this.requestsLow.shift()\<close>:
  a request object is truthy, \<open>shift()\<close> of an empty array is \<open>undefined\<close>.
\<close>

definition shiftNext :: "limiter \<Rightarrow> nat option \<times> limiter" where
  "shiftNext s =
     (case requestsHigh s of
        h # hs \<Rightarrow> (Some h, s\<lparr> requestsHigh := hs \<rparr>)
      | [] \<Rightarrow>
        (case requestsNormal s of
           n # ns \<Rightarrow> (Some n, s\<lparr> requestsNormal := ns \<rparr>)
         | [] \<Rightarrow>
           (case requestsLow s of
              l # ls \<Rightarrow> (Some l, s\<lparr> requestsLow := ls \<rparr>)
            | [] \<Rightarrow> (None, s))))"

text \<open>The \<open>for\<close> loop of \<open>processQueue\<close>, with the iterations still to run.\<close>

fun grantSlots :: "nat \<Rightarrow> limiter \<Rightarrow> limiter" where
  "grantSlots 0 s = s"
| "grantSlots (Suc i) s =
     (case shiftNext s of
        (None, s') \<Rightarrow> s'
      | (Some request, s') \<Rightarrow> grantSlots i (resolve request s'))"

text \<open>
  The three lanes, in the order the loop takes from them. The condition of the \<open>while\<close>
  loop (one of the three lengths is positive) says that this list is not empty.
\<close>

definition waiting :: "limiter \<Rightarrow> nat list" where
  "waiting s = requestsHigh s @ requestsNormal s @ requestsLow s"

text \<open>
  The \<open>while\<close> loop of \<open>processQueue\<close>, from the test of its condition on. With no slot
  available it suspends in the 50 ms sleep (the flag stays set); with the three lanes empty
  it leaves through \<open>finally\<close>: the flag is reset and a \<open>setImmediate\<close> is queued. Between
  two passes nothing else runs, so the second pass sees the same \<open>requestsRunning\<close>.
\<close>

function processQueue_loop :: "int \<Rightarrow> limiter \<Rightarrow> limiter" where
  "processQueue_loop now s =
     (if waiting s = []
      then s\<lparr> isProcessing := False, immediates := Suc (immediates s) \<rparr>
      else if fst (getAvailableSlots now s) = 0
      then (snd (getAvailableSlots now s))\<lparr> sleeping := Some (now + 50) \<rparr>
      else processQueue_loop now
             (grantSlots (nat (fst (getAvailableSlots now s))) (snd (getAvailableSlots now s))))"
  by pat_completeness auto
termination
proof (relation "measure (\<lambda>(now, s). length (waiting s))")
  show "wf (measure (\<lambda>(now, s). length (waiting s)))"
    by simp
next
  fix now :: int and s :: limiter
  assume nonempty: "waiting s \<noteq> []" and slots: "fst (getAvailableSlots now s) \<noteq> 0"
  have resolve_waiting: "waiting (resolve k t) = waiting t" for k t
    by (simp add: resolve_def waiting_def)
  have shift_some: "waiting t = k # waiting t'" if "shiftNext t = (Some k, t')" for t t' k
    using that by (auto simp: shiftNext_def waiting_def split: list.splits)
  have shift_none: "waiting t = [] \<and> t' = t" if "shiftNext t = (None, t')" for t t'
    using that by (auto simp: shiftNext_def waiting_def split: list.splits)
  have grant_le: "length (waiting (grantSlots i t)) \<le> length (waiting t)" for i t
  proof (induction i arbitrary: t)
    case 0
    show ?case by simp
  next
    case (Suc i)
    show ?case
    proof (cases "shiftNext t")
      case (Pair r t')
      show ?thesis
      proof (cases r)
        case None
        with Pair shift_none [of t t'] show ?thesis by simp
      next
        case (Some k)
        with Pair shift_some [of t k t'] Suc.IH [of "resolve k t'"] show ?thesis
          by (simp add: resolve_waiting)
      qed
    qed
  qed
  have grant_less: "length (waiting (grantSlots (Suc i) t)) < length (waiting t)"
    if "waiting t \<noteq> []" for i t
  proof (cases "shiftNext t")
    case (Pair r t')
    show ?thesis
    proof (cases r)
      case None
      with Pair shift_none [of t t'] that show ?thesis by simp
    next
      case (Some k)
      with Pair shift_some [of t k t'] grant_le [of i "resolve k t'"] show ?thesis
        by (simp add: resolve_waiting)
    qed
  qed
  have pruned: "waiting (snd (getAvailableSlots now s)) = waiting s"
    by (simp add: getAvailableSlots_def waiting_def Let_def)
  have "0 \<le> fst (getAvailableSlots now s)"
    by (simp add: getAvailableSlots_def Let_def)
  with slots obtain i where i: "nat (fst (getAvailableSlots now s)) = Suc i"
    by (cases "nat (fst (getAvailableSlots now s))") auto
  show "((now, grantSlots (nat (fst (getAvailableSlots now s))) (snd (getAvailableSlots now s))), (now, s))
        \<in> measure (\<lambda>(now, s). length (waiting s))"
    using grant_less [of "snd (getAvailableSlots now s)" i] nonempty
    by (simp add: i pruned)
qed

text \<open>\<open>processQueue()\<close> up to its first \<open>await\<close>: the two early returns, then the loop.\<close>

definition processQueue :: "int \<Rightarrow> limiter \<Rightarrow> limiter" where
  "processQueue now s =
     (if length (requestsHigh s) + length (requestsNormal s) + length (requestsLow s) = 0 then s
      else if isProcessing s then s
      else processQueue_loop now (s\<lparr> isProcessing := True \<rparr>))"

text \<open>The sleep of the loop is over: \<open>continue\<close>.\<close>

definition wakeUp :: "int \<Rightarrow> limiter \<Rightarrow> limiter" where
  "wakeUp now s =
     (case sleeping s of
        None \<Rightarrow> s
      | Some due \<Rightarrow> if due \<le> now then processQueue_loop now (s\<lparr> sleeping := None \<rparr>) else s)"

text \<open>A callback queued by \<open>setImmediate\<close> runs: it calls \<open>processQueue()\<close>.\<close>

definition immediate :: "int \<Rightarrow> limiter \<Rightarrow> limiter" where
  "immediate now s =
     (if immediates s = 0 then s else processQueue now (s\<lparr> immediates := immediates s - 1 \<rparr>))"

subsection \<open>\<open>requestSlot\<close>\<close>

text \<open>The \<open>if\<close> chain of the promise executor: the lane a request is pushed to.\<close>

definition enqueue :: "string \<Rightarrow> nat \<Rightarrow> limiter \<Rightarrow> limiter" where
  "enqueue p request s =
     (if p = ''high'' then s\<lparr> requestsHigh := requestsHigh s @ [request] \<rparr>
      else if p = ''normal'' then s\<lparr> requestsNormal := requestsNormal s @ [request] \<rparr>
      else s\<lparr> requestsLow := requestsLow s @ [request] \<rparr>)"

text \<open>
  \<open>requestSlot(options)\<close> up to its \<open>await\<close>: the defaults (\<open>||\<close> and \<open>?:\<close> test
  truthiness: the empty string and \<open>0\<close> are falsy), a new promise, the push, the call of
  \<open>processQueue\<close> and the timeout timer. It returns the number of its promise.
\<close>

definition requestSlot :: "RequestOptions \<Rightarrow> int \<Rightarrow> limiter \<Rightarrow> nat \<times> limiter" where
  "requestSlot options now s =
     (let p = (case priority options of None \<Rightarrow> ''normal''
               | Some v \<Rightarrow> if v = [] then ''normal'' else v);
          timeout = (case timeoutMs options of None \<Rightarrow> 60000
               | Some v \<Rightarrow> if v = 0 then 60000 else max 0 v);
          request = nextRequest s;
          s1 = enqueue p request (s\<lparr> nextRequest := Suc request \<rparr>);
          s2 = processQueue now s1
      in (request, s2\<lparr> timeoutHandles := (timeoutHandles s2)(request := Some (now + timeout)) \<rparr>))"

text \<open>
  The rest of \<open>requestSlot\<close>, run as a microtask once the promise is fulfilled: the timer
  is cleared and a new running request joins the Set. (On a rejected promise the \<open>await\<close>
  throws and none of this runs.)
\<close>

definition resumeSlot :: "int \<Rightarrow> limiter \<Rightarrow> limiter" where
  "resumeSlot now s =
     (case continuations s of
        [] \<Rightarrow> s
      | request # rest \<Rightarrow>
          s\<lparr> continuations := rest,
             timeoutHandles := (timeoutHandles s)(request := None),
             requestsRunning := requestsRunning s @ [(request, \<lparr> startedAt = now, endedAt = None \<rparr>)] \<rparr>)"

text \<open>The callback \<open>requestSlot\<close> returns: \<open>request.endedAt = Date.now()\<close>.\<close>

definition release :: "nat \<Rightarrow> int \<Rightarrow> limiter \<Rightarrow> limiter" where
  "release request now s =
     s\<lparr> requestsRunning :=
          map (\<lambda>(k, r). if k = request then (k, r\<lparr> endedAt := Some now \<rparr>) else (k, r))
            (requestsRunning s) \<rparr>"

text \<open>The timeout timer of a request fires: \<open>reject(new Error(`request timeout`))\<close>.\<close>

definition timeoutFires :: "nat \<Rightarrow> int \<Rightarrow> limiter \<Rightarrow> limiter" where
  "timeoutFires request now s =
     (case timeoutHandles s request of
        None \<Rightarrow> s
      | Some due \<Rightarrow>
          if due \<le> now
          then reject request RequestTimeout (s\<lparr> timeoutHandles := (timeoutHandles s)(request := None) \<rparr>)
          else s)"

subsection \<open>Runs of the event loop\<close>

text \<open>
  What can happen to a limiter, one task at a time, each with the clock it reads. A release
  callback exists once its request has resumed; a call that throws leaves the state as it
  was. Runs interleave the tasks freely, which covers every order the event loop produces.
\<close>

datatype event =
    RequestSlot RequestOptions int
  | ResumeSlot int
  | Release nat int
  | TimeoutFires nat int
  | ReduceLimitTemporary int int
  | RestoreLimit int
  | WakeUp int
  | Immediate int

fun step :: "event \<Rightarrow> limiter \<Rightarrow> limiter" where
  "step (RequestSlot options now) s = snd (requestSlot options now s)"
| "step (ResumeSlot now) s = resumeSlot now s"
| "step (Release request now) s =
     (if promises s request = Fulfilled \<and> request \<notin> set (continuations s)
      then release request now s else s)"
| "step (TimeoutFires request now) s = timeoutFires request now s"
| "step (ReduceLimitTemporary durationMs now) s =
     (case reduceLimitTemporary durationMs now s of Inl e \<Rightarrow> s | Inr s' \<Rightarrow> s')"
| "step (RestoreLimit now) s = restoreLimit now s"
| "step (WakeUp now) s = wakeUp now s"
| "step (Immediate now) s = immediate now s"

fun run :: "event list \<Rightarrow> limiter \<Rightarrow> limiter" where
  "run [] s = s"
| "run (e # es) s = run es (step e s)"

subsection \<open>The rate fields\<close>

text \<open>
  The fields that hold the rate and its restoration, and the events that leave them alone
  after a reduction at \<open>stamp\<close> whose timer is due at \<open>due\<close>: every event but a call of
  \<open>reduceLimitTemporary\<close> that takes effect and the firing of the timer.
\<close>

definition rates :: "limiter \<Rightarrow> int \<times> int \<times> int \<times> int option \<times> int" where
  "rates s = (maxRequestsPerSecond s, reductionNumber s, requestsPerSecond s,
              reduceLimitTimeout s, reduceLimitTimestamp s)"

fun quiet :: "int \<Rightarrow> int \<Rightarrow> event \<Rightarrow> bool" where
  "quiet stamp due (ReduceLimitTemporary durationMs now) = (durationMs \<le> 0 \<or> now - stamp < 1000)"
| "quiet stamp due (RestoreLimit now) = (now < due)"
| "quiet stamp due e = True"

text \<open>
  The events that hold no effective reduction after one at \<open>stamp\<close>: a call of
  \<open>reduceLimitTemporary\<close> among them throws or is debounced.
\<close>

fun debounced :: "int \<Rightarrow> event \<Rightarrow> bool" where
  "debounced stamp (ReduceLimitTemporary durationMs now) = (durationMs \<le> 0 \<or> now - stamp < 1000)"
| "debounced stamp e = True"

subsection \<open>Consistency of the queues with the promises\<close>

text \<open>
  What the fields say about each other in every state the limiter can reach: a request
  that was granted (its continuation is queued, or it ran and the request is in the Set) has
  a fulfilled promise; the numbers in the lanes are those of created requests; a request
  not yet created has a pending promise and no timer; a created request whose promise is
  pending is in a lane.
\<close>

definition consistent :: "limiter \<Rightarrow> bool" where
  "consistent s \<longleftrightarrow>
     (\<forall>k\<in>set (continuations s). promises s k = Fulfilled)
     \<and> (\<forall>k\<in>fst ` set (requestsRunning s). promises s k = Fulfilled)
     \<and> (\<forall>k\<in>set (waiting s). k < nextRequest s)
     \<and> (\<forall>k. nextRequest s \<le> k \<longrightarrow> promises s k = Pending \<and> timeoutHandles s k = None)
     \<and> (\<forall>k. k < nextRequest s \<and> promises s k = Pending \<longrightarrow> k \<in> set (waiting s))"

subsection \<open>An idle limiter\<close>

text \<open>
  Nothing waits, the loop is not running, the Set is empty (no continuation of a granted
  request has run yet) and the promises of the requests still to come are pending.
\<close>

definition idle :: "limiter \<Rightarrow> bool" where
  "idle s \<longleftrightarrow>
     waiting s = [] \<and> \<not> isProcessing s \<and> requestsRunning s = [] \<and> 1 \<le> requestsPerSecond s
     \<and> (\<forall>j. nextRequest s \<le> j \<longrightarrow> promises s j = Pending)"

subsection \<open>The specification's formula for the reduction\<close>

text \<open>
  From the specification, not from the source: \<open>max(1, floor(maxRate * reductionFraction / 100))\<close>,
  to be compared with \<open>reductionNumber\<close>.
\<close>

definition spec_reductionAmount :: "int \<Rightarrow> int \<Rightarrow> int" where
  "spec_reductionAmount maxRate reductionFraction = max 1 (maxRate * reductionFraction div 100)"

section \<open>Basic facts\<close>

text \<open>The loop is unfolded one pass at a time, by the three lemmas that follow.\<close>

declare processQueue_loop.simps [simp del]

lemma loop_empty:
  "waiting s = [] \<Longrightarrow>
   processQueue_loop now s = s\<lparr> isProcessing := False, immediates := Suc (immediates s) \<rparr>"
  by (simp add: processQueue_loop.simps)

lemma loop_sleep:
  "waiting s \<noteq> [] \<Longrightarrow> fst (getAvailableSlots now s) = 0 \<Longrightarrow>
   processQueue_loop now s = (snd (getAvailableSlots now s))\<lparr> sleeping := Some (now + 50) \<rparr>"
  by (simp add: processQueue_loop.simps)

lemma loop_grant:
  "waiting s \<noteq> [] \<Longrightarrow> fst (getAvailableSlots now s) \<noteq> 0 \<Longrightarrow>
   processQueue_loop now s =
     processQueue_loop now
       (grantSlots (nat (fst (getAvailableSlots now s))) (snd (getAvailableSlots now s)))"
  by (subst processQueue_loop.simps) simp

lemma shiftNext_Nil: "waiting s = [] \<Longrightarrow> shiftNext s = (None, s)"
  by (simp add: shiftNext_def waiting_def)

lemma shiftNext_None: "shiftNext s = (None, s') \<Longrightarrow> s' = s \<and> waiting s = []"
  by (auto simp: shiftNext_def waiting_def split: list.splits)

lemma shiftNext_Some:
  "shiftNext s = (Some k, s') \<Longrightarrow>
   waiting s = k # waiting s' \<and>
   (\<exists>H N L. s' = s\<lparr> requestsHigh := H, requestsNormal := N, requestsLow := L \<rparr>)"
proof (cases "requestsHigh s")
  case Nil
  note high = this
  assume shift: "shiftNext s = (Some k, s')"
  show ?thesis
  proof (cases "requestsNormal s")
    case Nil
    with high shift obtain ls where "requestsLow s = k # ls" "s' = s\<lparr> requestsLow := ls \<rparr>"
      by (auto simp: shiftNext_def split: list.splits)
    with high Nil have "waiting s = k # waiting s'"
      and "s' = s\<lparr> requestsHigh := [], requestsNormal := [], requestsLow := ls \<rparr>"
      by (simp_all add: waiting_def)
    then show ?thesis by blast
  next
    case (Cons n ns)
    with high shift have "n = k" "s' = s\<lparr> requestsNormal := ns \<rparr>"
      by (auto simp: shiftNext_def)
    with high Cons have "waiting s = k # waiting s'"
      and "s' = s\<lparr> requestsHigh := [], requestsNormal := ns, requestsLow := requestsLow s \<rparr>"
      by (simp_all add: waiting_def)
    then show ?thesis by blast
  qed
next
  case (Cons h hs)
  assume "shiftNext s = (Some k, s')"
  with Cons have "h = k" "s' = s\<lparr> requestsHigh := hs \<rparr>"
    by (auto simp: shiftNext_def)
  with Cons have "waiting s = k # waiting s'"
    and "s' = s\<lparr> requestsHigh := hs, requestsNormal := requestsNormal s,
                   requestsLow := requestsLow s \<rparr>"
    by (simp_all add: waiting_def)
  then show ?thesis by blast
qed

text \<open>What holds before the loops and is kept by each of their steps holds after them.\<close>

lemma grantSlots_keeps:
  assumes "P s"
    and shift: "\<And>s k H N L. P s \<Longrightarrow> P (s\<lparr> requestsHigh := H, requestsNormal := N, requestsLow := L \<rparr>)"
    and res: "\<And>s k. P s \<Longrightarrow> P (resolve k s)"
  shows "P (grantSlots i s)"
  using \<open>P s\<close>
proof (induction i arbitrary: s)
  case 0
  then show ?case by simp
next
  case (Suc i)
  show ?case
  proof (cases "shiftNext s")
    case (Pair r s')
    show ?thesis
    proof (cases r)
      case None
      with Pair Suc.prems shiftNext_None [of s s'] show ?thesis by simp
    next
      case (Some k)
      with Pair shiftNext_Some [of s k s'] obtain H N L
        where "s' = s\<lparr> requestsHigh := H, requestsNormal := N, requestsLow := L \<rparr>"
        by blast
      with Suc.prems have "P s'" by (simp add: shift)
      then have "P (resolve k s')" by (rule res)
      then have "P (grantSlots i (resolve k s'))" by (rule Suc.IH)
      with Pair Some show ?thesis by simp
    qed
  qed
qed

lemma processQueue_loop_keeps:
  assumes "P s"
    and fin: "\<And>s. P s \<Longrightarrow> P (s\<lparr> isProcessing := False, immediates := Suc (immediates s) \<rparr>)"
    and sleep: "\<And>s due. P s \<Longrightarrow> P (s\<lparr> sleeping := Some due \<rparr>)"
    and prune: "\<And>s now. P s \<Longrightarrow> P (snd (getAvailableSlots now s))"
    and grant: "\<And>s i. P s \<Longrightarrow> P (grantSlots i s)"
  shows "P (processQueue_loop now s)"
  using \<open>P s\<close>
proof (induction now s rule: processQueue_loop.induct)
  case (1 now s)
  show ?case
  proof (cases "waiting s = []")
    case True
    with "1.prems" show ?thesis by (simp add: loop_empty fin)
  next
    case False
    note nonempty = this
    show ?thesis
    proof (cases "fst (getAvailableSlots now s) = 0")
      case True
      with nonempty "1.prems" show ?thesis by (simp add: loop_sleep sleep prune)
    next
      case False
      from "1.prems" have "P (grantSlots (nat (fst (getAvailableSlots now s))) (snd (getAvailableSlots now s)))"
        by (simp add: grant prune)
      with nonempty False have "P (processQueue_loop now
          (grantSlots (nat (fst (getAvailableSlots now s))) (snd (getAvailableSlots now s))))"
        by (rule "1.IH")
      with nonempty False show ?thesis by (simp add: loop_grant)
    qed
  qed
qed

lemma grantSlots_Nil: "waiting s = [] \<Longrightarrow> grantSlots i s = s"
  by (cases i) (simp_all add: shiftNext_Nil)

lemma run_append: "run (xs @ ys) s = run ys (run xs s)"
  by (induction xs arbitrary: s) simp_all

lemma processQueue_start:
  "waiting s \<noteq> [] \<Longrightarrow> \<not> isProcessing s \<Longrightarrow>
   processQueue now s = processQueue_loop now (s\<lparr> isProcessing := True \<rparr>)"
  by (auto simp: processQueue_def waiting_def)

text \<open>Only \<open>reduceLimitTemporary\<close> and the restoration timer write the rate fields.\<close>

lemma rates_resolve: "rates (resolve k s) = rates s"
  by (simp add: rates_def resolve_def)

lemma rates_reject: "rates (reject k e s) = rates s"
  by (simp add: rates_def reject_def)

lemma rates_getAvailableSlots: "rates (snd (getAvailableSlots now s)) = rates s"
  by (simp add: rates_def getAvailableSlots_def Let_def)

lemma rates_grantSlots: "rates (grantSlots i s) = rates s"
proof -
  have "rates (grantSlots i s) = rates s \<and> True"
    by (rule grantSlots_keeps [where P = "\<lambda>t. rates t = rates s \<and> True"])
      (simp_all add: rates_resolve, simp add: rates_def)
  then show ?thesis by simp
qed

lemma rates_processQueue_loop: "rates (processQueue_loop now s) = rates s"
  by (rule processQueue_loop_keeps [where P = "\<lambda>t. rates t = rates s"])
    (simp_all add: rates_getAvailableSlots rates_grantSlots, simp_all add: rates_def)

lemma rates_processQueue: "rates (processQueue now s) = rates s"
proof -
  have "rates (s\<lparr> isProcessing := True \<rparr>) = rates s"
    by (simp add: rates_def)
  then show ?thesis
    by (simp add: processQueue_def rates_processQueue_loop)
qed

lemma rates_wakeUp: "rates (wakeUp now s) = rates s"
proof -
  have "rates (s\<lparr> sleeping := None \<rparr>) = rates s"
    by (simp add: rates_def)
  then show ?thesis
    by (simp add: wakeUp_def rates_processQueue_loop split: option.splits)
qed

lemma rates_immediate: "rates (immediate now s) = rates s"
proof -
  have "rates (s\<lparr> immediates := immediates s - 1 \<rparr>) = rates s"
    by (simp add: rates_def)
  then show ?thesis
    by (simp add: immediate_def rates_processQueue)
qed

lemma rates_enqueue: "rates (enqueue p k s) = rates s"
  by (simp add: rates_def enqueue_def)

lemma rates_requestSlot: "rates (snd (requestSlot options now s)) = rates s"
proof -
  have a: "rates (t\<lparr> timeoutHandles := h \<rparr>) = rates t" for t h
    by (simp add: rates_def)
  have b: "rates (s\<lparr> nextRequest := n \<rparr>) = rates s" for n
    by (simp add: rates_def)
  show ?thesis
    by (simp add: requestSlot_def Let_def a b rates_processQueue rates_enqueue)
qed

lemma rates_resumeSlot: "rates (resumeSlot now s) = rates s"
  by (simp add: rates_def resumeSlot_def split: list.splits)

lemma rates_release: "rates (release k now s) = rates s"
  by (simp add: rates_def release_def)

lemma rates_timeoutFires: "rates (timeoutFires k now s) = rates s"
proof -
  have "rates (s\<lparr> timeoutHandles := h \<rparr>) = rates s" for h
    by (simp add: rates_def)
  then show ?thesis
    by (simp add: timeoutFires_def rates_reject split: option.splits)
qed

lemma rates_quiet_step:
  assumes "reduceLimitTimestamp s = stamp" and "reduceLimitTimeout s = Some due"
    and "quiet stamp due e"
  shows "rates (step e s) = rates s"
proof (cases e)
  case (ReduceLimitTemporary durationMs now)
  with assms show ?thesis
    by (auto simp: reduceLimitTemporary_def)
next
  case (RestoreLimit now)
  with assms show ?thesis
    by (simp add: restoreLimit_def)
qed (simp_all add: rates_requestSlot rates_resumeSlot rates_release rates_timeoutFires
      rates_wakeUp rates_immediate)

lemma rates_quiet_run:
  assumes "reduceLimitTimestamp s = stamp" and "reduceLimitTimeout s = Some due"
    and "\<forall>e\<in>set es. quiet stamp due e"
  shows "rates (run es s) = rates s"
  using assms
proof (induction es arbitrary: s)
  case Nil
  show ?case by simp
next
  case (Cons e es)
  then have same: "rates (step e s) = rates s"
    by (simp add: rates_quiet_step)
  with Cons.prems have "reduceLimitTimestamp (step e s) = stamp"
    and "reduceLimitTimeout (step e s) = Some due"
    by (simp_all add: rates_def)
  with Cons have "rates (run es (step e s)) = rates (step e s)"
    by simp
  with same show ?case by simp
qed

lemma rate_step:
  assumes "1 \<le> maxRequestsPerSecond s" and "1 \<le> requestsPerSecond s"
  shows "maxRequestsPerSecond (step e s) = maxRequestsPerSecond s \<and> 1 \<le> requestsPerSecond (step e s)"
proof -
  consider (reduce) durationMs now where "e = ReduceLimitTemporary durationMs now"
    | (restore) now where "e = RestoreLimit now"
    | (other) "rates (step e s) = rates s"
    by (cases e) (simp_all add: rates_requestSlot rates_resumeSlot rates_release
        rates_timeoutFires rates_wakeUp rates_immediate)
  then show ?thesis
  proof cases
    case reduce
    with assms show ?thesis by (simp add: reduceLimitTemporary_def)
  next
    case restore
    with assms show ?thesis by (simp add: restoreLimit_def split: option.splits)
  next
    case other
    with assms show ?thesis by (simp add: rates_def)
  qed
qed

lemma rate_run:
  assumes "1 \<le> maxRequestsPerSecond s" and "1 \<le> requestsPerSecond s"
  shows "maxRequestsPerSecond (run es s) = maxRequestsPerSecond s \<and> 1 \<le> requestsPerSecond (run es s)"
  using assms
proof (induction es arbitrary: s)
  case Nil
  then show ?case by simp
next
  case (Cons e es)
  from rate_step [OF Cons.prems, of e] Cons.IH [of "step e s"] Cons.prems(1)
  show ?case by simp
qed

text \<open>
  Without an effective reduction the rate stays as it is until the restoration timer fires,
  and is the maximum from then on.
\<close>

lemma debounced_step:
  assumes "debounced (reduceLimitTimestamp s) e"
  shows "reduceLimitTimestamp (step e s) = reduceLimitTimestamp s
       \<and> maxRequestsPerSecond (step e s) = maxRequestsPerSecond s
       \<and> reductionNumber (step e s) = reductionNumber s
       \<and> (reduceLimitTimeout (step e s) = reduceLimitTimeout s
             \<and> requestsPerSecond (step e s) = requestsPerSecond s
           \<or> reduceLimitTimeout (step e s) = None
             \<and> requestsPerSecond (step e s) = maxRequestsPerSecond s)"
proof -
  consider (reduce) durationMs now where "e = ReduceLimitTemporary durationMs now"
    | (restore) now where "e = RestoreLimit now"
    | (other) "rates (step e s) = rates s"
    by (cases e) (simp_all add: rates_requestSlot rates_resumeSlot rates_release
        rates_timeoutFires rates_wakeUp rates_immediate)
  then show ?thesis
  proof cases
    case reduce
    with assms show ?thesis by (auto simp: reduceLimitTemporary_def)
  next
    case restore
    then show ?thesis by (simp add: restoreLimit_def split: option.splits)
  next
    case other
    then show ?thesis by (simp add: rates_def)
  qed
qed

lemma debounced_run:
  assumes "\<forall>e\<in>set es. debounced (reduceLimitTimestamp s) e"
    and "reduceLimitTimeout s = Some due \<and> requestsPerSecond s = rate
         \<or> reduceLimitTimeout s = None \<and> requestsPerSecond s = maxRequestsPerSecond s"
  shows "reduceLimitTimestamp (run es s) = reduceLimitTimestamp s
       \<and> maxRequestsPerSecond (run es s) = maxRequestsPerSecond s
       \<and> reductionNumber (run es s) = reductionNumber s
       \<and> (reduceLimitTimeout (run es s) = Some due \<and> requestsPerSecond (run es s) = rate
           \<or> reduceLimitTimeout (run es s) = None
             \<and> requestsPerSecond (run es s) = maxRequestsPerSecond s)"
  using assms
proof (induction es arbitrary: s)
  case Nil
  then show ?case by simp
next
  case (Cons e es)
  from Cons.prems(1) have "debounced (reduceLimitTimestamp s) e"
    by simp
  note one = debounced_step [OF this]
  with Cons.prems(1) have rest: "\<forall>x\<in>set es. debounced (reduceLimitTimestamp (step e s)) x"
    by simp
  from one Cons.prems(2)
  have "reduceLimitTimeout (step e s) = Some due \<and> requestsPerSecond (step e s) = rate
      \<or> reduceLimitTimeout (step e s) = None
        \<and> requestsPerSecond (step e s) = maxRequestsPerSecond (step e s)"
    by auto
  from Cons.IH [OF rest this] one show ?case
    by simp
qed





text \<open>Evaluation of the definitions on concrete states.\<close>

lemmas evaluate = initial_def requestSlot_def enqueue_def processQueue_def getAvailableSlots_def
  shiftNext_def resolve_def reject_def resumeSlot_def release_def timeoutFires_def wakeUp_def
  immediate_def stale_def reduceLimitTemporary_def restoreLimit_def waiting_def Let_def
  loop_empty loop_sleep loop_grant eval_nat_numeral

text \<open>The \<open>for\<close> loop takes the waiting requests from the front, high lane first.\<close>

lemma shiftNext_Cons:
  assumes "waiting s = k # rest"
  shows "\<exists>s'. shiftNext s = (Some k, s') \<and> waiting s' = rest
           \<and> promises s' = promises s \<and> continuations s' = continuations s"
proof (cases "shiftNext s")
  case (Pair r s')
  show ?thesis
  proof (cases r)
    case None
    with Pair assms shiftNext_None [of s s'] show ?thesis by simp
  next
    case (Some j)
    with Pair shiftNext_Some [of s j s'] obtain H N L
      where "waiting s = j # waiting s'"
        and "s' = s\<lparr> requestsHigh := H, requestsNormal := N, requestsLow := L \<rparr>"
      by blast
    with assms have "j = k" "waiting s' = rest" "promises s' = promises s"
      "continuations s' = continuations s"
      by simp_all
    with Pair Some show ?thesis by simp
  qed
qed

lemma waiting_resolve: "waiting (resolve k s) = waiting s"
  by (simp add: resolve_def waiting_def)

lemma grantSlots_waiting: "waiting (grantSlots i s) = drop i (waiting s)"
proof (induction i arbitrary: s)
  case 0
  show ?case by simp
next
  case (Suc i)
  show ?case
  proof (cases "waiting s")
    case Nil
    then show ?thesis by (simp add: shiftNext_Nil)
  next
    case (Cons k rest)
    then obtain s' where "shiftNext s = (Some k, s')" "waiting s' = rest"
      using shiftNext_Cons by blast
    with Cons Suc.IH [of "resolve k s'"] show ?thesis
      by (simp add: waiting_resolve)
  qed
qed

lemma grantSlots_order:
  assumes "distinct (waiting s)"
  shows "continuations (grantSlots i s) =
           continuations s @ filter (\<lambda>k. promises s k = Pending) (take i (waiting s))"
  using assms
proof (induction i arbitrary: s)
  case 0
  show ?case by simp
next
  case (Suc i)
  show ?case
  proof (cases "waiting s")
    case Nil
    then show ?thesis by (simp add: shiftNext_Nil)
  next
    case (Cons k rest)
    then obtain s' where shift: "shiftNext s = (Some k, s')" and rest: "waiting s' = rest"
      and same: "promises s' = promises s" "continuations s' = continuations s"
      using shiftNext_Cons by blast
    from Cons Suc.prems have fresh: "k \<notin> set rest" and "distinct rest"
      by simp_all
    with rest have "distinct (waiting (resolve k s'))"
      by (simp add: waiting_resolve)
    then have "continuations (grantSlots i (resolve k s')) =
        continuations (resolve k s') @
        filter (\<lambda>j. promises (resolve k s') j = Pending) (take i (waiting (resolve k s')))"
      by (rule Suc.IH)
    moreover have "filter (\<lambda>j. promises (resolve k s') j = Pending) (take i rest) =
        filter (\<lambda>j. promises s j = Pending) (take i rest)"
    proof (rule filter_cong [OF refl])
      fix j assume "j \<in> set (take i rest)"
      then have "j \<in> set rest" by (rule in_set_takeD)
      with fresh have "j \<noteq> k" by blast
      then show "(promises (resolve k s') j = Pending) = (promises s j = Pending)"
        by (simp add: resolve_def same)
    qed
    moreover have "continuations (resolve k s') =
        continuations s @ filter (\<lambda>j. promises s j = Pending) [k]"
      by (simp add: resolve_def same)
    ultimately show ?thesis
      using shift Cons rest by (simp add: waiting_resolve)
  qed
qed

text \<open>The scheduler settles a promise by fulfilling it, never by rejecting it.\<close>

lemma promises_grantSlots:
  "\<forall>j. promises (grantSlots i s) j = promises s j \<or> promises (grantSlots i s) j = Fulfilled"
  by (rule grantSlots_keeps [where P = "\<lambda>t. \<forall>j. promises t j = promises s j \<or> promises t j = Fulfilled"])
    (auto simp: resolve_def)

lemma promises_processQueue_loop:
  "\<forall>j. promises (processQueue_loop now s) j = promises s j
       \<or> promises (processQueue_loop now s) j = Fulfilled"
proof (rule processQueue_loop_keeps
    [where P = "\<lambda>t. \<forall>j. promises t j = promises s j \<or> promises t j = Fulfilled"])
  fix t :: limiter and i
  assume "\<forall>j. promises t j = promises s j \<or> promises t j = Fulfilled"
  with promises_grantSlots [of i t]
  show "\<forall>j. promises (grantSlots i t) j = promises s j \<or> promises (grantSlots i t) j = Fulfilled"
    by metis
qed (simp_all add: getAvailableSlots_def Let_def)

lemma promises_processQueue:
  "\<forall>j. promises (processQueue now s) j = promises s j \<or> promises (processQueue now s) j = Fulfilled"
  using promises_processQueue_loop [of now "s\<lparr> isProcessing := True \<rparr>"]
  by (simp add: processQueue_def)

lemma promises_requestSlot:
  "\<forall>j. promises (snd (requestSlot options now s)) j = promises s j
       \<or> promises (snd (requestSlot options now s)) j = Fulfilled"
proof -
  have "promises (enqueue p k (s\<lparr> nextRequest := n \<rparr>)) = promises s" for p k n
    by (simp add: enqueue_def)
  with promises_processQueue [of now "enqueue p k (s\<lparr> nextRequest := n \<rparr>)" for p k n]
  show ?thesis
    by (simp add: requestSlot_def Let_def)
qed

text \<open>Every step keeps the queues consistent with the promises.\<close>

lemma grantSlots_keeps_shift:
  assumes "P s"
    and shift: "\<And>s k s'. P s \<Longrightarrow> shiftNext s = (Some k, s') \<Longrightarrow> P (resolve k s')"
  shows "P (grantSlots i s)"
  using \<open>P s\<close>
proof (induction i arbitrary: s)
  case 0
  then show ?case by simp
next
  case (Suc i)
  show ?case
  proof (cases "shiftNext s")
    case (Pair r s')
    show ?thesis
    proof (cases r)
      case None
      with Pair Suc.prems shiftNext_None [of s s'] show ?thesis by simp
    next
      case (Some k)
      with Pair Suc.prems have "P (resolve k s')" by (simp add: shift)
      then have "P (grantSlots i (resolve k s'))" by (rule Suc.IH)
      with Pair Some show ?thesis by simp
    qed
  qed
qed

lemma consistent_shift:
  assumes "consistent s" and "shiftNext s = (Some k, s')"
  shows "consistent (resolve k s')"
proof -
  from assms(2) shiftNext_Some [of s k s'] obtain H N L
    where w: "waiting s = k # waiting s'"
      and s': "s' = s\<lparr> requestsHigh := H, requestsNormal := N, requestsLow := L \<rparr>"
    by blast
  from s' have same: "promises s' = promises s" "continuations s' = continuations s"
    "requestsRunning s' = requestsRunning s" "nextRequest s' = nextRequest s"
    "timeoutHandles s' = timeoutHandles s"
    by simp_all
  from assms(1) w have k: "k < nextRequest s"
    by (simp add: consistent_def)
  show ?thesis
  proof (cases "promises s k = Pending")
    case True
    then have r: "resolve k s' = s'\<lparr> promises := (promises s)(k := Fulfilled),
        continuations := continuations s @ [k] \<rparr>"
      by (simp add: resolve_def same)
    have w': "waiting (resolve k s') = waiting s'"
      by (simp add: waiting_resolve)
    from assms(1) k show ?thesis
      unfolding consistent_def w' unfolding r w
      by (auto simp: same)
  next
    case False
    then have r: "resolve k s' = s'"
      by (simp add: resolve_def same)
    from assms(1) False show ?thesis
      unfolding r consistent_def w
      by (auto simp: same)
  qed
qed

lemma consistent_grantSlots: "consistent s \<Longrightarrow> consistent (grantSlots i s)"
  by (rule grantSlots_keeps_shift [where P = consistent]) (simp_all add: consistent_shift)

lemma consistent_getAvailableSlots: "consistent s \<Longrightarrow> consistent (snd (getAvailableSlots now s))"
  by (auto simp: consistent_def getAvailableSlots_def Let_def waiting_def)

lemma consistent_processQueue_loop: "consistent s \<Longrightarrow> consistent (processQueue_loop now s)"
proof (rule processQueue_loop_keeps [where P = consistent])
  fix t assume "consistent t"
  then show "consistent (t\<lparr> isProcessing := False, immediates := Suc (immediates t) \<rparr>)"
    by (simp add: consistent_def waiting_def)
next
  fix t due assume "consistent t"
  then show "consistent (t\<lparr> sleeping := Some due \<rparr>)"
    by (simp add: consistent_def waiting_def)
qed (simp_all add: consistent_grantSlots consistent_getAvailableSlots)

lemma consistent_processQueue: "consistent s \<Longrightarrow> consistent (processQueue now s)"
proof -
  assume "consistent s"
  then have "consistent (s\<lparr> isProcessing := True \<rparr>)"
    by (simp add: consistent_def waiting_def)
  with \<open>consistent s\<close> show ?thesis
    by (simp add: processQueue_def consistent_processQueue_loop)
qed

lemma consistent_requestSlot:
  assumes "consistent s"
  shows "consistent (snd (requestSlot options now s))"
proof -
  have push: "consistent (enqueue p (nextRequest s) (s\<lparr> nextRequest := Suc (nextRequest s) \<rparr>))" for p
    using assms by (auto simp: consistent_def enqueue_def waiting_def less_Suc_eq)
  have next_enqueue: "nextRequest (enqueue p k t) = nextRequest t" for p k t
    by (simp add: enqueue_def)
  have next_loop: "nextRequest (processQueue_loop now t) = nextRequest t" for t
    by (rule processQueue_loop_keeps [where P = "\<lambda>u. nextRequest u = nextRequest t"])
      (simp_all add: getAvailableSlots_def Let_def,
       rule grantSlots_keeps, simp_all add: resolve_def)
  have next_queue: "nextRequest (processQueue now t) = nextRequest t" for t
    by (simp add: processQueue_def next_loop)
  have arm: "consistent (t\<lparr> timeoutHandles := (timeoutHandles t)(k := Some d) \<rparr>)"
    if "consistent t" "k < nextRequest t" for t k d
    using that by (auto simp: consistent_def waiting_def)
  show ?thesis
    by (simp add: requestSlot_def Let_def)
      (rule arm, rule consistent_processQueue, rule push, simp add: next_queue next_enqueue)
qed

lemma consistent_resumeSlot: "consistent s \<Longrightarrow> consistent (resumeSlot now s)"
  by (auto simp: consistent_def resumeSlot_def waiting_def split: list.splits)

lemma consistent_release: "consistent s \<Longrightarrow> consistent (release k now s)"
proof -
  assume "consistent s"
  moreover have "fst ` set (requestsRunning (release k now s)) = fst ` set (requestsRunning s)"
    by (force simp: release_def image_iff split: if_splits)
  moreover have "promises (release k now s) = promises s"
    "continuations (release k now s) = continuations s"
    "waiting (release k now s) = waiting s"
    "nextRequest (release k now s) = nextRequest s"
    "timeoutHandles (release k now s) = timeoutHandles s"
    by (simp_all add: release_def waiting_def)
  ultimately show ?thesis
    by (simp add: consistent_def)
qed

lemma consistent_timeoutFires: "consistent s \<Longrightarrow> consistent (timeoutFires k now s)"
  by (auto simp: consistent_def timeoutFires_def reject_def waiting_def split: option.splits)

lemma consistent_step: "consistent s \<Longrightarrow> consistent (step e s)"
proof (cases e)
  case (ReduceLimitTemporary durationMs now)
  assume "consistent s"
  then show ?thesis
    by (auto simp: ReduceLimitTemporary reduceLimitTemporary_def consistent_def waiting_def)
next
  case (RestoreLimit now)
  assume "consistent s"
  then show ?thesis
    by (auto simp: RestoreLimit restoreLimit_def consistent_def waiting_def split: option.splits)
next
  case (WakeUp now)
  assume "consistent s"
  then have "consistent (s\<lparr> sleeping := None \<rparr>)"
    by (simp add: consistent_def waiting_def)
  with \<open>consistent s\<close> show ?thesis
    by (simp add: WakeUp wakeUp_def consistent_processQueue_loop split: option.splits)
next
  case (Immediate now)
  assume "consistent s"
  then have "consistent (s\<lparr> immediates := immediates s - 1 \<rparr>)"
    by (simp add: consistent_def waiting_def)
  with \<open>consistent s\<close> show ?thesis
    by (simp add: Immediate immediate_def consistent_processQueue)
qed (simp_all add: consistent_requestSlot consistent_resumeSlot consistent_release
      consistent_timeoutFires)

lemma consistent_run: "consistent s \<Longrightarrow> consistent (run es s)"
  by (induction es arbitrary: s) (simp_all add: consistent_step)

lemma consistent_initial: "consistent (initial rps)"
  by (simp add: consistent_def initial_def waiting_def)

text \<open>A promise that is settled stays as it is.\<close>

lemma settled_grantSlots:
  "promises s k \<noteq> Pending \<Longrightarrow> promises (grantSlots i s) k = promises s k"
  by (rule grantSlots_keeps [where P = "\<lambda>t. promises t k = promises s k"])
    (auto simp: resolve_def)

lemma settled_processQueue_loop:
  assumes "promises s k \<noteq> Pending"
  shows "promises (processQueue_loop now s) k = promises s k"
proof (rule processQueue_loop_keeps [where P = "\<lambda>t. promises t k = promises s k"])
  fix t :: limiter and i
  assume "promises t k = promises s k"
  with assms settled_grantSlots [of t k i]
  show "promises (grantSlots i t) k = promises s k"
    by simp
qed (simp_all add: getAvailableSlots_def Let_def)

lemma settled_processQueue:
  "promises s k \<noteq> Pending \<Longrightarrow> promises (processQueue now s) k = promises s k"
  using settled_processQueue_loop [of "s\<lparr> isProcessing := True \<rparr>" k now]
  by (simp add: processQueue_def)

lemma settled_step:
  assumes "promises s k \<noteq> Pending"
  shows "promises (step e s) k = promises s k"
proof (cases e)
  case (RequestSlot options now)
  have "promises (enqueue p r (s\<lparr> nextRequest := n \<rparr>)) = promises s" for p r n
    by (simp add: enqueue_def)
  with assms settled_processQueue [of "enqueue p r (s\<lparr> nextRequest := n \<rparr>)" k now for p r n]
  show ?thesis
    by (simp add: RequestSlot requestSlot_def Let_def)
next
  case (ResumeSlot now)
  then show ?thesis by (simp add: resumeSlot_def split: list.splits)
next
  case (Release r now)
  then show ?thesis by (simp add: release_def)
next
  case (TimeoutFires r now)
  with assms show ?thesis
    by (auto simp: timeoutFires_def reject_def split: option.splits)
next
  case (ReduceLimitTemporary durationMs now)
  then show ?thesis by (simp add: reduceLimitTemporary_def)
next
  case (RestoreLimit now)
  then show ?thesis by (simp add: restoreLimit_def split: option.splits)
next
  case (WakeUp now)
  with assms settled_processQueue_loop [of "s\<lparr> sleeping := None \<rparr>" k now]
  show ?thesis by (simp add: wakeUp_def split: option.splits)
next
  case (Immediate now)
  with assms settled_processQueue [of "s\<lparr> immediates := immediates s - 1 \<rparr>" k now]
  show ?thesis by (simp add: immediate_def)
qed

lemma settled_run:
  "promises s k \<noteq> Pending \<Longrightarrow> promises (run es s) k = promises s k"
proof (induction es arbitrary: s)
  case Nil
  show ?case by simp
next
  case (Cons e es)
  from Cons.prems have "promises (step e s) k = promises s k"
    by (rule settled_step)
  with Cons.prems Cons.IH [of "step e s"] show ?case by simp
qed

section \<open>Properties\<close>

subsection \<open>The rate controller\<close>

text \<open>
  C7, as stated, fails. \<open>ApiCallLimiter\<close> takes no reduction percentage: at
  \<open>requestsPerSecond = 100\<close> it reduces by \<open>10\<close>, where the default fraction \<open>25\<close> of the
  formula gives \<open>25\<close>. \<open>CallLimiter\<close> takes the percentage and has no lower bound: at
  \<open>maxRequestsPerSecond = 1\<close> and \<open>25\<close> it reduces by \<open>0\<close>, where the formula gives \<open>1\<close>.
\<close>

theorem C7_counterexample:
  "newApiCallLimiter 100 = Inr (initial 100)
   \<and> reductionNumber (initial 100) \<noteq> spec_reductionAmount 100 25
   \<and> CallLimiter_reductionNumber 1 25 \<noteq> spec_reductionAmount 1 25"
proof -
  have "\<lfloor>(1::rat) / 4\<rfloor> = 0"
    by (rule floor_unique) simp_all
  then have "CallLimiter_reductionNumber 1 25 = 0"
    by (simp add: CallLimiter_reductionNumber_def)
  moreover have "spec_reductionAmount 1 25 = 1" "spec_reductionAmount 100 25 = 25"
    by (simp_all add: spec_reductionAmount_def)
  moreover have "reductionNumber (initial 100) = 10"
    by (simp add: initial_def)
  ultimately show ?thesis
    by (simp add: newApiCallLimiter_def)
qed

text \<open>
  C7, amended: for every positive \<open>requestsPerSecond\<close> the constructor of \<open>ApiCallLimiter\<close>
  succeeds and sets the reduction to \<open>max(1, floor(requestsPerSecond / 10))\<close>, which is the
  formula of the specification at the fixed fraction \<open>10\<close>.
\<close>

theorem C7_reduction_is_a_tenth:
  assumes "0 < maxRate"
  shows "\<exists>s. newApiCallLimiter maxRate = Inr s
           \<and> reductionNumber s = max 1 (maxRate div 10)
           \<and> reductionNumber s = spec_reductionAmount maxRate 10"
proof -
  have "maxRate * 10 div (10 * 10) = maxRate div 10"
    by (rule div_mult_mult2) simp
  then have "spec_reductionAmount maxRate 10 = max 1 (maxRate div 10)"
    by (simp add: spec_reductionAmount_def)
  with assms show ?thesis
    by (simp add: newApiCallLimiter_def initial_def)
qed

text \<open>C7, amended, at \<open>requestsPerSecond = 57\<close>: the reduction is \<open>5\<close>.\<close>

theorem C7_reduction_is_a_tenth_witness:
  "(0::int) < 57 \<and> (\<exists>s. newApiCallLimiter 57 = Inr s \<and> reductionNumber s = 5
      \<and> spec_reductionAmount 57 10 = 5)"
proof -
  have pos: "(0::int) < 57" by simp
  from C7_reduction_is_a_tenth [OF pos] obtain s where
    "newApiCallLimiter 57 = Inr s" "reductionNumber s = max 1 (57 div 10)"
    "reductionNumber s = spec_reductionAmount 57 10"
    by blast
  then show ?thesis by (simp add: spec_reductionAmount_def)
qed

text \<open>
  C4, as stated, fails at \<open>requestsPerSecond = 1\<close>: after a reduction at \<open>5000\<close> and a second
  call at \<open>5500\<close> the rate is \<open>1\<close>, and \<open>maxRequestsPerSecond - reductionNumber\<close> is \<open>0\<close>.
\<close>

theorem C4_counterexample:
  "\<exists>s1 s2. reduceLimitTemporary 3000 5000 (initial 1) = Inr s1
     \<and> reduceLimitTemporary 3000 5500 s1 = Inr s2
     \<and> requestsPerSecond s2 = 1
     \<and> maxRequestsPerSecond s2 - reductionNumber s2 = 0"
  by (simp add: reduceLimitTemporary_def initial_def)

text \<open>
  C4, amended: when a call of \<open>reduceLimitTemporary\<close> takes effect at \<open>now1\<close> (a positive
  duration, at least 1000 ms after the last reduction) and a second call with a positive
  duration comes less than 1000 ms after it, whatever happened in between (any further call
  in between being debounced as well), the second call returns normally and changes
  nothing. The rate is then reduced once, \<open>max(1, rate before - reductionNumber)\<close>, with the
  timer of the first call still armed; or that timer has fired in between (a first duration
  shorter than the gap) and the rate is \<open>maxRequestsPerSecond\<close>. The first case is the one
  that holds when no restoration came due in between; for a limiter that was at its maximum
  it reads \<open>max(1, maxRequestsPerSecond - reductionNumber)\<close>.
\<close>

theorem C4_debounce:
  assumes "0 < d1" and "0 < d2"
    and "1000 \<le> now1 - reduceLimitTimestamp s"
    and "now2 - now1 < 1000"
    and "\<forall>e\<in>set es. debounced now1 e"
  shows "\<exists>s1. reduceLimitTemporary d1 now1 s = Inr s1
           \<and> requestsPerSecond s1 = max 1 (requestsPerSecond s - reductionNumber s)
           \<and> reduceLimitTemporary d2 now2 (run es s1) = Inr (run es s1)
           \<and> (reduceLimitTimeout (run es s1) = Some (now1 + d1)
                 \<and> requestsPerSecond (run es s1) = max 1 (requestsPerSecond s - reductionNumber s)
               \<or> reduceLimitTimeout (run es s1) = None
                 \<and> requestsPerSecond (run es s1) = maxRequestsPerSecond s)
           \<and> ((\<forall>e\<in>set es. quiet now1 (now1 + d1) e) \<longrightarrow>
                requestsPerSecond (run es s1) = max 1 (requestsPerSecond s - reductionNumber s))
           \<and> (requestsPerSecond s = maxRequestsPerSecond s \<longrightarrow>
                max 1 (requestsPerSecond s - reductionNumber s) =
                  max 1 (maxRequestsPerSecond (run es s1) - reductionNumber (run es s1)))"
proof -
  define s1 where "s1 = s\<lparr> reduceLimitTimestamp := now1,
      reduceLimitTimeout := Some (now1 + d1),
      requestsPerSecond := max 1 (requestsPerSecond s - reductionNumber s) \<rparr>"
  from assms(1,3) have call: "reduceLimitTemporary d1 now1 s = Inr s1"
    by (simp add: reduceLimitTemporary_def s1_def)
  have s1: "reduceLimitTimestamp s1 = now1" "reduceLimitTimeout s1 = Some (now1 + d1)"
    "requestsPerSecond s1 = max 1 (requestsPerSecond s - reductionNumber s)"
    "maxRequestsPerSecond s1 = maxRequestsPerSecond s" "reductionNumber s1 = reductionNumber s"
    by (simp_all add: s1_def)
  from assms(5) s1 have "\<forall>e\<in>set es. debounced (reduceLimitTimestamp s1) e"
    by simp
  from debounced_run [OF this, of "now1 + d1" "max 1 (requestsPerSecond s - reductionNumber s)"] s1
  have after: "reduceLimitTimestamp (run es s1) = now1"
    "maxRequestsPerSecond (run es s1) = maxRequestsPerSecond s"
    "reductionNumber (run es s1) = reductionNumber s"
    "reduceLimitTimeout (run es s1) = Some (now1 + d1)
       \<and> requestsPerSecond (run es s1) = max 1 (requestsPerSecond s - reductionNumber s)
     \<or> reduceLimitTimeout (run es s1) = None
       \<and> requestsPerSecond (run es s1) = maxRequestsPerSecond s"
    by simp_all
  from assms(2,4) after(1)
  have second: "reduceLimitTemporary d2 now2 (run es s1) = Inr (run es s1)"
    by (simp add: reduceLimitTemporary_def)
  have undisturbed: "requestsPerSecond (run es s1) = max 1 (requestsPerSecond s - reductionNumber s)"
    if "\<forall>e\<in>set es. quiet now1 (now1 + d1) e"
  proof -
    from that s1 have "rates (run es s1) = rates s1"
      by (simp add: rates_quiet_run)
    with s1 show ?thesis by (simp add: rates_def)
  qed
  from call s1(3) second after(4) undisturbed after(2,3) show ?thesis
    by auto
qed

text \<open>
  C4, amended, on a new limiter of rate 20. Calls at \<open>5000\<close> (for 3000 ms) and \<open>5999\<close>, a
  request in between: the rate is 18. Calls at \<open>5000\<close> (for 100 ms) and \<open>5500\<close>, the timer
  firing at \<open>5100\<close>: the second call changes nothing and the rate is 20.
\<close>

theorem C4_debounce_witness:
  "(\<exists>s1. reduceLimitTemporary 3000 5000 (initial 20) = Inr s1
      \<and> reduceLimitTemporary 700 5999
           (run [RequestSlot \<lparr> priority = None, timeoutMs = None \<rparr> 5100, ResumeSlot 5100] s1)
         = Inr (run [RequestSlot \<lparr> priority = None, timeoutMs = None \<rparr> 5100, ResumeSlot 5100] s1)
      \<and> requestsPerSecond
           (run [RequestSlot \<lparr> priority = None, timeoutMs = None \<rparr> 5100, ResumeSlot 5100] s1) = 18)
   \<and> (\<exists>s1. reduceLimitTemporary 100 5000 (initial 20) = Inr s1
      \<and> requestsPerSecond s1 = 18
      \<and> reduceLimitTemporary 700 5500 (run [RestoreLimit 5100] s1) = Inr (run [RestoreLimit 5100] s1)
      \<and> requestsPerSecond (run [RestoreLimit 5100] s1) = 20)"
proof -
  have a: "(0::int) < 3000" and b: "(0::int) < 700" and a': "(0::int) < 100"
    and c: "1000 \<le> 5000 - reduceLimitTimestamp (initial 20)"
    and d: "(5999::int) - 5000 < 1000" and d': "(5500::int) - 5000 < 1000"
    and e: "\<forall>e\<in>set [RequestSlot \<lparr> priority = None, timeoutMs = None \<rparr> 5100, ResumeSlot 5100].
              debounced 5000 e"
    and e': "\<forall>e\<in>set [RestoreLimit 5100]. debounced 5000 e"
    and q: "\<forall>e\<in>set [RequestSlot \<lparr> priority = None, timeoutMs = None \<rparr> 5100, ResumeSlot 5100].
              quiet 5000 (5000 + 3000) e"
    by (simp_all add: initial_def)
  from C4_debounce [OF a b c d e] q obtain s1 where
    "reduceLimitTemporary 3000 5000 (initial 20) = Inr s1"
    "reduceLimitTemporary 700 5999
           (run [RequestSlot \<lparr> priority = None, timeoutMs = None \<rparr> 5100, ResumeSlot 5100] s1)
         = Inr (run [RequestSlot \<lparr> priority = None, timeoutMs = None \<rparr> 5100, ResumeSlot 5100] s1)"
    "requestsPerSecond
           (run [RequestSlot \<lparr> priority = None, timeoutMs = None \<rparr> 5100, ResumeSlot 5100] s1)
       = max 1 (requestsPerSecond (initial 20) - reductionNumber (initial 20))"
    by blast
  then have first: "\<exists>s1. reduceLimitTemporary 3000 5000 (initial 20) = Inr s1
      \<and> reduceLimitTemporary 700 5999
           (run [RequestSlot \<lparr> priority = None, timeoutMs = None \<rparr> 5100, ResumeSlot 5100] s1)
         = Inr (run [RequestSlot \<lparr> priority = None, timeoutMs = None \<rparr> 5100, ResumeSlot 5100] s1)
      \<and> requestsPerSecond
           (run [RequestSlot \<lparr> priority = None, timeoutMs = None \<rparr> 5100, ResumeSlot 5100] s1) = 18"
    by (auto simp: initial_def)
  from C4_debounce [OF a' b c d' e'] obtain s2 where s2:
    "reduceLimitTemporary 100 5000 (initial 20) = Inr s2"
    "requestsPerSecond s2 = max 1 (requestsPerSecond (initial 20) - reductionNumber (initial 20))"
    "reduceLimitTemporary 700 5500 (run [RestoreLimit 5100] s2) = Inr (run [RestoreLimit 5100] s2)"
    by blast
  from s2(1) have "requestsPerSecond (run [RestoreLimit 5100] s2) = 20"
    by (auto simp: reduceLimitTemporary_def initial_def restoreLimit_def)
  with s2 have "\<exists>s1. reduceLimitTemporary 100 5000 (initial 20) = Inr s1
      \<and> requestsPerSecond s1 = 18
      \<and> reduceLimitTemporary 700 5500 (run [RestoreLimit 5100] s1) = Inr (run [RestoreLimit 5100] s1)
      \<and> requestsPerSecond (run [RestoreLimit 5100] s1) = 20"
    by (auto simp: initial_def)
  with first show ?thesis by blast
qed

text \<open>
  C8: after a call of \<open>reduceLimitTemporary(durationMs)\<close> that takes effect at \<open>now\<close>,
  whatever the state before it (any number of earlier reductions), the restoration timer is
  armed for \<open>now + durationMs\<close>; it stays armed through every run of events that holds no
  further effective reduction, and when it fires, at or after its due time, the rate is
  \<open>maxRequestsPerSecond\<close> again and the timer is gone.
\<close>

theorem C8_restoration:
  assumes "0 < durationMs" and "1000 \<le> now - reduceLimitTimestamp s"
    and "\<forall>e\<in>set es. quiet now (now + durationMs) e"
    and "now + durationMs \<le> t"
  shows "\<exists>s1. reduceLimitTemporary durationMs now s = Inr s1
           \<and> reduceLimitTimeout (run es s1) = Some (now + durationMs)
           \<and> requestsPerSecond (restoreLimit t (run es s1)) = maxRequestsPerSecond s
           \<and> reduceLimitTimeout (restoreLimit t (run es s1)) = None"
proof -
  define s1 where "s1 = s\<lparr> reduceLimitTimestamp := now,
      reduceLimitTimeout := Some (now + durationMs),
      requestsPerSecond := max 1 (requestsPerSecond s - reductionNumber s) \<rparr>"
  from assms(1,2) have call: "reduceLimitTemporary durationMs now s = Inr s1"
    by (simp add: reduceLimitTemporary_def s1_def)
  have "reduceLimitTimestamp s1 = now" and "reduceLimitTimeout s1 = Some (now + durationMs)"
    by (simp_all add: s1_def)
  with assms(3) have "rates (run es s1) = rates s1"
    by (simp add: rates_quiet_run)
  then have timer: "reduceLimitTimeout (run es s1) = Some (now + durationMs)"
    and maxi: "maxRequestsPerSecond (run es s1) = maxRequestsPerSecond s"
    by (simp_all add: rates_def s1_def)
  with assms(4) have "requestsPerSecond (restoreLimit t (run es s1)) = maxRequestsPerSecond s"
    and "reduceLimitTimeout (restoreLimit t (run es s1)) = None"
    by (simp_all add: restoreLimit_def)
  with call timer show ?thesis by blast
qed

text \<open>
  C8 on a new limiter of rate 20: reduced to 18 at \<open>5000\<close> for 3000 ms; a request, a
  debounced reduction, a release and an early timer tick later, the timer restores 20.
\<close>

theorem C8_restoration_witness:
  "\<exists>s1. reduceLimitTemporary 3000 5000 (initial 20) = Inr s1
     \<and> requestsPerSecond s1 = 18
     \<and> requestsPerSecond
           (restoreLimit 8000
             (run [RequestSlot \<lparr> priority = None, timeoutMs = None \<rparr> 5100, ResumeSlot 5100,
                   ReduceLimitTemporary 500 5600, Release 0 5700, RestoreLimit 6000] s1)) = 20"
proof -
  have a: "(0::int) < 3000"
    and b: "1000 \<le> 5000 - reduceLimitTimestamp (initial 20)"
    and c: "\<forall>e\<in>set [RequestSlot \<lparr> priority = None, timeoutMs = None \<rparr> 5100, ResumeSlot 5100,
                   ReduceLimitTemporary 500 5600, Release 0 5700, RestoreLimit 6000].
              quiet 5000 (5000 + 3000) e"
    and d: "(5000::int) + 3000 \<le> 8000"
    by (simp_all add: initial_def)
  from C8_restoration [OF a b c d] obtain s1 where
    "reduceLimitTemporary 3000 5000 (initial 20) = Inr s1"
    "requestsPerSecond
           (restoreLimit 8000
             (run [RequestSlot \<lparr> priority = None, timeoutMs = None \<rparr> 5100, ResumeSlot 5100,
                   ReduceLimitTemporary 500 5600, Release 0 5700, RestoreLimit 6000] s1))
       = maxRequestsPerSecond (initial 20)"
    by blast
  moreover from this(1) have "requestsPerSecond s1 = 18"
    by (auto simp: reduceLimitTemporary_def initial_def)
  ultimately show ?thesis
    by (simp add: initial_def)
qed

text \<open>
  C9: for every \<open>requestsPerSecond\<close> of at least 1 the constructor succeeds, and after
  every run of events (requests, grants, releases, timeouts, reductions at any times,
  restorations, wake-ups) the rate is at least 1. The reduction of \<open>RateLimiter\<close> yields
  at least 1 as well.
\<close>

theorem C9_rate_at_least_one:
  assumes "1 \<le> maxRate"
  shows "newApiCallLimiter maxRate = Inr (initial maxRate)
         \<and> 1 \<le> requestsPerSecond (run es (initial maxRate))
         \<and> 1 \<le> RateLimiter_reduce maxRate rate"
proof -
  from assms have "1 \<le> maxRequestsPerSecond (initial maxRate)"
    and "1 \<le> requestsPerSecond (initial maxRate)"
    by (simp_all add: initial_def)
  then have "1 \<le> requestsPerSecond (run es (initial maxRate))"
    by (simp add: rate_run)
  with assms show ?thesis
    by (simp add: newApiCallLimiter_def RateLimiter_reduce_def)
qed

text \<open>C9 at rate 1, through two effective reductions, a request and a restoration.\<close>

theorem C9_rate_at_least_one_witness:
  "(1::int) \<le> 1
   \<and> 1 \<le> requestsPerSecond
         (run [ReduceLimitTemporary 3000 5000, RequestSlot \<lparr> priority = None, timeoutMs = None \<rparr> 5100,
               ResumeSlot 5100, ReduceLimitTemporary 3000 7000, RestoreLimit 12000] (initial 1))
   \<and> 1 \<le> RateLimiter_reduce 1 1"
  using C9_rate_at_least_one [of 1 "[ReduceLimitTemporary 3000 5000,
      RequestSlot \<lparr> priority = None, timeoutMs = None \<rparr> 5100,
      ResumeSlot 5100, ReduceLimitTemporary 3000 7000, RestoreLimit 12000]" 1]
  by simp

subsection \<open>The queue\<close>

text \<open>
  C5: \<open>shift() || shift() || shift()\<close> takes the head of the high lane when that lane is
  not empty, else the head of the normal lane, else the head of the low lane, and yields
  nothing exactly when the three lanes are empty. A request is pushed at the tail of its
  lane, and a \<open>for\<close> loop of \<open>i\<close> iterations takes the first \<open>i\<close> requests of the high
  lane followed by the normal lane followed by the low lane: among distinct requests, the
  pending ones are granted in that order, so within a lane in the order of their arrival.
\<close>

theorem C5_priority_then_fifo:
  "(requestsHigh s \<noteq> [] \<longrightarrow>
      shiftNext s = (Some (hd (requestsHigh s)), s\<lparr> requestsHigh := tl (requestsHigh s) \<rparr>))
   \<and> (requestsHigh s = [] \<and> requestsNormal s \<noteq> [] \<longrightarrow>
      shiftNext s = (Some (hd (requestsNormal s)), s\<lparr> requestsNormal := tl (requestsNormal s) \<rparr>))
   \<and> (requestsHigh s = [] \<and> requestsNormal s = [] \<and> requestsLow s \<noteq> [] \<longrightarrow>
      shiftNext s = (Some (hd (requestsLow s)), s\<lparr> requestsLow := tl (requestsLow s) \<rparr>))
   \<and> (fst (shiftNext s) = None) =
        (requestsHigh s = [] \<and> requestsNormal s = [] \<and> requestsLow s = [])
   \<and> requestsHigh (enqueue ''high'' k s) = requestsHigh s @ [k]
   \<and> requestsNormal (enqueue ''normal'' k s) = requestsNormal s @ [k]
   \<and> requestsLow (enqueue ''low'' k s) = requestsLow s @ [k]
   \<and> waiting (grantSlots i s) = drop i (waiting s)
   \<and> (distinct (waiting s) \<longrightarrow>
        continuations (grantSlots i s) =
          continuations s @ filter (\<lambda>k. promises s k = Pending) (take i (waiting s)))"
proof -
  have "requestsHigh s \<noteq> [] \<longrightarrow>
      shiftNext s = (Some (hd (requestsHigh s)), s\<lparr> requestsHigh := tl (requestsHigh s) \<rparr>)"
    by (simp add: shiftNext_def split: list.splits)
  moreover have "requestsHigh s = [] \<and> requestsNormal s \<noteq> [] \<longrightarrow>
      shiftNext s = (Some (hd (requestsNormal s)), s\<lparr> requestsNormal := tl (requestsNormal s) \<rparr>)"
    by (simp add: shiftNext_def split: list.splits)
  moreover have "requestsHigh s = [] \<and> requestsNormal s = [] \<and> requestsLow s \<noteq> [] \<longrightarrow>
      shiftNext s = (Some (hd (requestsLow s)), s\<lparr> requestsLow := tl (requestsLow s) \<rparr>)"
    by (simp add: shiftNext_def split: list.splits)
  moreover have "(fst (shiftNext s) = None) =
        (requestsHigh s = [] \<and> requestsNormal s = [] \<and> requestsLow s = [])"
    by (simp add: shiftNext_def split: list.splits)
  moreover have "requestsHigh (enqueue ''high'' k s) = requestsHigh s @ [k]"
    "requestsNormal (enqueue ''normal'' k s) = requestsNormal s @ [k]"
    "requestsLow (enqueue ''low'' k s) = requestsLow s @ [k]"
    by (simp_all add: enqueue_def)
  ultimately show ?thesis
    using grantSlots_waiting [of i s] grantSlots_order [of s i] by blast
qed

text \<open>
  C5 at rate 1 with the slot taken: requests 1 (low), 2 (high), 3 (normal), 4 (high)
  arrive in this order; the next request is 2, and three slots go to 2, 4, 3, leaving 1.
\<close>

theorem C5_priority_then_fifo_witness:
  "fst (shiftNext (run [RequestSlot \<lparr> priority = None, timeoutMs = None \<rparr> 5000, ResumeSlot 5000,
          RequestSlot \<lparr> priority = Some ''low'', timeoutMs = None \<rparr> 5001,
          RequestSlot \<lparr> priority = Some ''high'', timeoutMs = None \<rparr> 5002,
          RequestSlot \<lparr> priority = Some ''normal'', timeoutMs = None \<rparr> 5003,
          RequestSlot \<lparr> priority = Some ''high'', timeoutMs = None \<rparr> 5004] (initial 1))) = Some 2
   \<and> continuations (grantSlots 3 (run [RequestSlot \<lparr> priority = None, timeoutMs = None \<rparr> 5000, ResumeSlot 5000,
          RequestSlot \<lparr> priority = Some ''low'', timeoutMs = None \<rparr> 5001,
          RequestSlot \<lparr> priority = Some ''high'', timeoutMs = None \<rparr> 5002,
          RequestSlot \<lparr> priority = Some ''normal'', timeoutMs = None \<rparr> 5003,
          RequestSlot \<lparr> priority = Some ''high'', timeoutMs = None \<rparr> 5004] (initial 1))) = [2, 4, 3]
   \<and> waiting (grantSlots 3 (run [RequestSlot \<lparr> priority = None, timeoutMs = None \<rparr> 5000, ResumeSlot 5000,
          RequestSlot \<lparr> priority = Some ''low'', timeoutMs = None \<rparr> 5001,
          RequestSlot \<lparr> priority = Some ''high'', timeoutMs = None \<rparr> 5002,
          RequestSlot \<lparr> priority = Some ''normal'', timeoutMs = None \<rparr> 5003,
          RequestSlot \<lparr> priority = Some ''high'', timeoutMs = None \<rparr> 5004] (initial 1))) = [1]"
proof -
  define s where "s = run [RequestSlot \<lparr> priority = None, timeoutMs = None \<rparr> 5000, ResumeSlot 5000,
          RequestSlot \<lparr> priority = Some ''low'', timeoutMs = None \<rparr> 5001,
          RequestSlot \<lparr> priority = Some ''high'', timeoutMs = None \<rparr> 5002,
          RequestSlot \<lparr> priority = Some ''normal'', timeoutMs = None \<rparr> 5003,
          RequestSlot \<lparr> priority = Some ''high'', timeoutMs = None \<rparr> 5004] (initial 1)"
  have high: "requestsHigh s = [2, 4]" and normal: "requestsNormal s = [3]"
    and low: "requestsLow s = [1]" and none: "continuations s = []"
    by (simp_all add: s_def evaluate)
  have pending: "promises s 1 = Pending" "promises s 2 = Pending" "promises s 3 = Pending"
    "promises s 4 = Pending"
    by (simp_all add: s_def evaluate)
  from high normal low have all: "waiting s = [2, 4, 3, 1]"
    by (simp add: waiting_def)
  from C5_priority_then_fifo [of s 9 3] high all
  have "shiftNext s = (Some (hd (requestsHigh s)), s\<lparr> requestsHigh := tl (requestsHigh s) \<rparr>)"
    and "waiting (grantSlots 3 s) = drop 3 (waiting s)"
    and "continuations (grantSlots 3 s) =
          continuations s @ filter (\<lambda>k. promises s k = Pending) (take 3 (waiting s))"
    by simp_all
  with high all none pending have "fst (shiftNext s) = Some 2"
    and "waiting (grantSlots 3 s) = [1]" and "continuations (grantSlots 3 s) = [2, 4, 3]"
    by simp_all
  then show ?thesis
    unfolding s_def by simp
qed

subsection \<open>The priority of a request\<close>

text \<open>
  C6, as stated, fails: at rate 1 with the slot taken, \<open>requestSlot\<close> with the priority
  \<open>'urgent'\<close> raises nothing. The request waits in the low lane with its promise pending,
  and is granted once the slot is released and its second is over.
\<close>

theorem C6_counterexample:
  "requestsLow (run [RequestSlot \<lparr> priority = None, timeoutMs = None \<rparr> 5000, ResumeSlot 5000,
       RequestSlot \<lparr> priority = Some ''urgent'', timeoutMs = None \<rparr> 5001] (initial 1)) = [1]
   \<and> promises (run [RequestSlot \<lparr> priority = None, timeoutMs = None \<rparr> 5000, ResumeSlot 5000,
       RequestSlot \<lparr> priority = Some ''urgent'', timeoutMs = None \<rparr> 5001] (initial 1)) 1 = Pending
   \<and> promises (run [RequestSlot \<lparr> priority = None, timeoutMs = None \<rparr> 5000, ResumeSlot 5000,
       RequestSlot \<lparr> priority = Some ''urgent'', timeoutMs = None \<rparr> 5001,
       Release 0 5002, WakeUp 6100] (initial 1)) 1 = Fulfilled"
  by (simp add: evaluate)

text \<open>
  C6, amended: \<open>requestSlot\<close> does not validate the priority. For every options value the
  call takes the next request number and rejects no promise (each promise is as before, or
  fulfilled). It pushes the request at the tail of the high lane for \<open>'high'\<close>, of the normal
  lane for \<open>'normal'\<close>, an absent and an empty priority, and of the low lane for every other
  value, and then runs \<open>processQueue\<close> (the result is that state, the timeout timer apart);
  when the loop is already running the request is still at that tail when the call returns.
\<close>

theorem C6_priority_not_validated:
  "fst (requestSlot options now s) = nextRequest s
   \<and> (\<forall>j. promises (snd (requestSlot options now s)) j = promises s j
          \<or> promises (snd (requestSlot options now s)) j = Fulfilled)
   \<and> (priority options = Some ''high'' \<longrightarrow>
        (snd (requestSlot options now s))\<lparr> timeoutHandles := h \<rparr> =
        (processQueue now (s\<lparr> nextRequest := Suc (nextRequest s),
            requestsHigh := requestsHigh s @ [nextRequest s] \<rparr>))\<lparr> timeoutHandles := h \<rparr>)
   \<and> (priority options = None \<or> priority options = Some [] \<or> priority options = Some ''normal'' \<longrightarrow>
        (snd (requestSlot options now s))\<lparr> timeoutHandles := h \<rparr> =
        (processQueue now (s\<lparr> nextRequest := Suc (nextRequest s),
            requestsNormal := requestsNormal s @ [nextRequest s] \<rparr>))\<lparr> timeoutHandles := h \<rparr>)
   \<and> (priority options = Some p \<and> p \<noteq> [] \<and> p \<noteq> ''high'' \<and> p \<noteq> ''normal'' \<longrightarrow>
        (snd (requestSlot options now s))\<lparr> timeoutHandles := h \<rparr> =
        (processQueue now (s\<lparr> nextRequest := Suc (nextRequest s),
            requestsLow := requestsLow s @ [nextRequest s] \<rparr>))\<lparr> timeoutHandles := h \<rparr>)
   \<and> (isProcessing s \<longrightarrow>
        requestsHigh (snd (requestSlot options now s)) =
          requestsHigh s @ (if priority options = Some ''high'' then [nextRequest s] else [])
        \<and> requestsNormal (snd (requestSlot options now s)) =
          requestsNormal s @ (if priority options = None \<or> priority options = Some []
              \<or> priority options = Some ''normal'' then [nextRequest s] else [])
        \<and> requestsLow (snd (requestSlot options now s)) =
          requestsLow s @ (if priority options = None \<or> priority options = Some []
              \<or> priority options = Some ''normal'' \<or> priority options = Some ''high''
            then [] else [nextRequest s]))"
proof -
  have "fst (requestSlot options now s) = nextRequest s"
    by (simp add: requestSlot_def Let_def)
  moreover have "priority options = Some ''high'' \<longrightarrow>
        (snd (requestSlot options now s))\<lparr> timeoutHandles := h \<rparr> =
        (processQueue now (s\<lparr> nextRequest := Suc (nextRequest s),
            requestsHigh := requestsHigh s @ [nextRequest s] \<rparr>))\<lparr> timeoutHandles := h \<rparr>"
    by (simp add: requestSlot_def Let_def enqueue_def)
  moreover have "priority options = None \<or> priority options = Some [] \<or> priority options = Some ''normal'' \<longrightarrow>
        (snd (requestSlot options now s))\<lparr> timeoutHandles := h \<rparr> =
        (processQueue now (s\<lparr> nextRequest := Suc (nextRequest s),
            requestsNormal := requestsNormal s @ [nextRequest s] \<rparr>))\<lparr> timeoutHandles := h \<rparr>"
    by (auto simp: requestSlot_def Let_def enqueue_def)
  moreover have "priority options = Some p \<and> p \<noteq> [] \<and> p \<noteq> ''high'' \<and> p \<noteq> ''normal'' \<longrightarrow>
        (snd (requestSlot options now s))\<lparr> timeoutHandles := h \<rparr> =
        (processQueue now (s\<lparr> nextRequest := Suc (nextRequest s),
            requestsLow := requestsLow s @ [nextRequest s] \<rparr>))\<lparr> timeoutHandles := h \<rparr>"
    by (simp add: requestSlot_def Let_def enqueue_def)
  moreover have "isProcessing s \<longrightarrow>
        requestsHigh (snd (requestSlot options now s)) =
          requestsHigh s @ (if priority options = Some ''high'' then [nextRequest s] else [])
        \<and> requestsNormal (snd (requestSlot options now s)) =
          requestsNormal s @ (if priority options = None \<or> priority options = Some []
              \<or> priority options = Some ''normal'' then [nextRequest s] else [])
        \<and> requestsLow (snd (requestSlot options now s)) =
          requestsLow s @ (if priority options = None \<or> priority options = Some []
              \<or> priority options = Some ''normal'' \<or> priority options = Some ''high''
            then [] else [nextRequest s])"
    by (cases "priority options")
      (auto simp: requestSlot_def Let_def enqueue_def processQueue_def)
  ultimately show ?thesis
    using promises_requestSlot [of options now s] by blast
qed

text \<open>
  C6, amended, at rate 1 with the slot taken and request 1 waiting in the high lane:
  \<open>'urgent'\<close> makes request 2, at the tail of the low lane; the other lanes are as before.
\<close>

theorem C6_priority_not_validated_witness:
  "requestsLow (snd (requestSlot \<lparr> priority = Some ''urgent'', timeoutMs = None \<rparr> 5001
       (run [RequestSlot \<lparr> priority = None, timeoutMs = None \<rparr> 5000, ResumeSlot 5000,
             RequestSlot \<lparr> priority = Some ''high'', timeoutMs = None \<rparr> 5001] (initial 1)))) = [2]
   \<and> requestsHigh (snd (requestSlot \<lparr> priority = Some ''urgent'', timeoutMs = None \<rparr> 5001
       (run [RequestSlot \<lparr> priority = None, timeoutMs = None \<rparr> 5000, ResumeSlot 5000,
             RequestSlot \<lparr> priority = Some ''high'', timeoutMs = None \<rparr> 5001] (initial 1)))) = [1]
   \<and> requestsNormal (snd (requestSlot \<lparr> priority = Some ''urgent'', timeoutMs = None \<rparr> 5001
       (run [RequestSlot \<lparr> priority = None, timeoutMs = None \<rparr> 5000, ResumeSlot 5000,
             RequestSlot \<lparr> priority = Some ''high'', timeoutMs = None \<rparr> 5001] (initial 1)))) = []
   \<and> fst (requestSlot \<lparr> priority = Some ''urgent'', timeoutMs = None \<rparr> 5001
       (run [RequestSlot \<lparr> priority = None, timeoutMs = None \<rparr> 5000, ResumeSlot 5000,
             RequestSlot \<lparr> priority = Some ''high'', timeoutMs = None \<rparr> 5001] (initial 1))) = 2"
proof -
  define s where "s = run [RequestSlot \<lparr> priority = None, timeoutMs = None \<rparr> 5000, ResumeSlot 5000,
             RequestSlot \<lparr> priority = Some ''high'', timeoutMs = None \<rparr> 5001] (initial 1)"
  define options where "options = \<lparr> priority = Some ''urgent'', timeoutMs = None \<rparr>"
  have busy: "isProcessing s" and lanes: "requestsHigh s = [1]" "requestsNormal s = []"
    "requestsLow s = []" and fresh: "nextRequest s = 2"
    by (simp_all add: s_def evaluate)
  have prio: "priority options = Some ''urgent''"
    by (simp add: options_def)
  note fact = C6_priority_not_validated [where options = options and now = 5001 and s = s
      and p = "''urgent''" and h = "\<lambda>_. None"]
  from fact have "fst (requestSlot options 5001 s) = nextRequest s"
    by blast
  moreover from fact busy
  have "requestsHigh (snd (requestSlot options 5001 s)) =
          requestsHigh s @ (if priority options = Some ''high'' then [nextRequest s] else [])"
    and "requestsNormal (snd (requestSlot options 5001 s)) =
          requestsNormal s @ (if priority options = None \<or> priority options = Some []
              \<or> priority options = Some ''normal'' then [nextRequest s] else [])"
    and "requestsLow (snd (requestSlot options 5001 s)) =
          requestsLow s @ (if priority options = None \<or> priority options = Some []
              \<or> priority options = Some ''normal'' \<or> priority options = Some ''high''
            then [] else [nextRequest s])"
    by blast+
  ultimately have "requestsLow (snd (requestSlot options 5001 s)) = [2]
      \<and> requestsHigh (snd (requestSlot options 5001 s)) = [1]
      \<and> requestsNormal (snd (requestSlot options 5001 s)) = []
      \<and> fst (requestSlot options 5001 s) = 2"
    by (simp add: prio lanes fresh)
  then show ?thesis
    unfolding s_def options_def .
qed



subsection \<open>Release\<close>




subsection \<open>Capacity under concurrent requests\<close>

text \<open>
  C1 does not hold of the code. A grant (\<open>resolve\<close>) does not enter the request into
  \<open>requestsRunning\<close>: that happens when \<open>requestSlot\<close> resumes after its \<open>await\<close>, in a
  microtask, so every \<open>getAvailableSlots\<close> before that sees the slot as free. At rate 1, two
  \<open>requestSlot\<close> calls made one after the other in the same tick are both granted, and once
  their continuations have run two requests are running, none of them released.
\<close>

theorem C1_concurrent_requests_exceed_rate:
  "newApiCallLimiter 1 = Inr (initial 1)
   \<and> promises (run [RequestSlot \<lparr> priority = None, timeoutMs = None \<rparr> 5000,
                    RequestSlot \<lparr> priority = None, timeoutMs = None \<rparr> 5000] (initial 1)) 0 = Fulfilled
   \<and> promises (run [RequestSlot \<lparr> priority = None, timeoutMs = None \<rparr> 5000,
                    RequestSlot \<lparr> priority = None, timeoutMs = None \<rparr> 5000] (initial 1)) 1 = Fulfilled
   \<and> requestsRunning (run [RequestSlot \<lparr> priority = None, timeoutMs = None \<rparr> 5000,
                    RequestSlot \<lparr> priority = None, timeoutMs = None \<rparr> 5000,
                    ResumeSlot 5000, ResumeSlot 5000] (initial 1))
       = [(0, \<lparr> startedAt = 5000, endedAt = None \<rparr>), (1, \<lparr> startedAt = 5000, endedAt = None \<rparr>)]
   \<and> requestsPerSecond (run [RequestSlot \<lparr> priority = None, timeoutMs = None \<rparr> 5000,
                    RequestSlot \<lparr> priority = None, timeoutMs = None \<rparr> 5000,
                    ResumeSlot 5000, ResumeSlot 5000] (initial 1)) = 1"
  by (simp add: evaluate newApiCallLimiter_def)

text \<open>
  The loop has the same gap between two passes: at rate 1, three requests wait behind a
  running one; when its slot is free again, one wake-up grants all three.
\<close>

lemma queue_drains_when_one_slot_frees:
  "map (promises (run [RequestSlot \<lparr> priority = None, timeoutMs = None \<rparr> 5000, ResumeSlot 5000,
          RequestSlot \<lparr> priority = None, timeoutMs = None \<rparr> 5001,
          RequestSlot \<lparr> priority = None, timeoutMs = None \<rparr> 5002,
          RequestSlot \<lparr> priority = None, timeoutMs = None \<rparr> 5003,
          Release 0 5010] (initial 1))) [1, 2, 3] = [Pending, Pending, Pending]
   \<and> map (promises (run [RequestSlot \<lparr> priority = None, timeoutMs = None \<rparr> 5000, ResumeSlot 5000,
          RequestSlot \<lparr> priority = None, timeoutMs = None \<rparr> 5001,
          RequestSlot \<lparr> priority = None, timeoutMs = None \<rparr> 5002,
          RequestSlot \<lparr> priority = None, timeoutMs = None \<rparr> 5003,
          Release 0 5010, WakeUp 6051] (initial 1))) [1, 2, 3] = [Fulfilled, Fulfilled, Fulfilled]
   \<and> map fst (requestsRunning (run [RequestSlot \<lparr> priority = None, timeoutMs = None \<rparr> 5000, ResumeSlot 5000,
          RequestSlot \<lparr> priority = None, timeoutMs = None \<rparr> 5001,
          RequestSlot \<lparr> priority = None, timeoutMs = None \<rparr> 5002,
          RequestSlot \<lparr> priority = None, timeoutMs = None \<rparr> 5003,
          Release 0 5010, WakeUp 6051, ResumeSlot 6051, ResumeSlot 6051, ResumeSlot 6051]
          (initial 1))) = [1, 2, 3]"
  by (simp add: evaluate)

text \<open>
  For every rate: a request made on an idle limiter is granted at once and leaves the
  limiter idle, since the Set is still empty. So any number of requests made in one tick
  are all granted, whatever the rate, and all of them are running once they have resumed.
\<close>

lemma requestSlot_idle:
  assumes "idle s"
  shows "idle (snd (requestSlot options now s))"
    and "nextRequest (snd (requestSlot options now s)) = Suc (nextRequest s)"
    and "promises (snd (requestSlot options now s)) = (promises s)(nextRequest s := Fulfilled)"
    and "continuations (snd (requestSlot options now s)) = continuations s @ [nextRequest s]"
    and "requestsPerSecond (snd (requestSlot options now s)) = requestsPerSecond s"
proof -
  define k where "k = nextRequest s"
  define p where "p = (case priority options of None \<Rightarrow> ''normal''
      | Some v \<Rightarrow> if v = [] then ''normal'' else v)"
  define t where "t = (enqueue p k (s\<lparr> nextRequest := Suc k \<rparr>))\<lparr> isProcessing := True \<rparr>"
  from assms have empty: "requestsHigh s = []" "requestsNormal s = []" "requestsLow s = []"
    and free: "\<not> isProcessing s" and none: "requestsRunning s = []"
    and rate: "1 \<le> requestsPerSecond s" and pending: "promises s k = Pending"
    by (simp_all add: idle_def waiting_def k_def)
  have t_waiting: "waiting t = [k]"
    by (simp add: t_def enqueue_def waiting_def empty)
  have t_fields: "requestsRunning t = []" "requestsPerSecond t = requestsPerSecond s"
    "promises t = promises s" "continuations t = continuations s" "nextRequest t = Suc k"
    by (simp_all add: t_def enqueue_def none)
  have slots: "getAvailableSlots now t = (requestsPerSecond s, t)"
    using rate by (simp add: getAvailableSlots_def t_fields)
  from rate obtain i where i: "nat (requestsPerSecond s) = Suc i"
    by (cases "nat (requestsPerSecond s)") auto
  from t_waiting shiftNext_Cons [of t k "[]"] obtain u
    where shift: "shiftNext t = (Some k, u)" and u_waiting: "waiting u = []"
    by blast
  from shift shiftNext_Some [of t k u] obtain H N L
    where u: "u = t\<lparr> requestsHigh := H, requestsNormal := N, requestsLow := L \<rparr>"
    by blast
  define v where "v = resolve k u"
  have v_waiting: "waiting v = []"
    by (simp add: v_def waiting_resolve u_waiting)
  have v_fields: "requestsRunning v = []" "requestsPerSecond v = requestsPerSecond s"
    "promises v = (promises s)(k := Fulfilled)" "continuations v = continuations s @ [k]"
    "nextRequest v = Suc k"
    using pending by (simp_all add: v_def resolve_def u t_fields)
  have "grantSlots (nat (requestsPerSecond s)) t = v"
    by (simp add: i shift v_def [symmetric] grantSlots_Nil v_waiting)
  with t_waiting slots rate have "processQueue_loop now t = processQueue_loop now v"
    by (simp add: loop_grant)
  also have "\<dots> = v\<lparr> isProcessing := False, immediates := Suc (immediates v) \<rparr>"
    by (simp add: loop_empty v_waiting)
  finally have loop: "processQueue_loop now t =
      v\<lparr> isProcessing := False, immediates := Suc (immediates v) \<rparr>" .
  have "waiting (enqueue p k (s\<lparr> nextRequest := Suc k \<rparr>)) \<noteq> []"
    by (simp add: enqueue_def waiting_def)
  moreover have "\<not> isProcessing (enqueue p k (s\<lparr> nextRequest := Suc k \<rparr>))"
    using free by (simp add: enqueue_def)
  ultimately have "processQueue now (enqueue p k (s\<lparr> nextRequest := Suc k \<rparr>)) =
      v\<lparr> isProcessing := False, immediates := Suc (immediates v) \<rparr>"
    by (simp add: processQueue_start loop t_def [symmetric])
  then have result: "snd (requestSlot options now s) =
      v\<lparr> isProcessing := False, immediates := Suc (immediates v),
         timeoutHandles := (timeoutHandles v)(k := Some (now +
           (case timeoutMs options of None \<Rightarrow> 60000
            | Some x \<Rightarrow> if x = 0 then 60000 else max 0 x))) \<rparr>"
    by (simp add: requestSlot_def Let_def k_def [symmetric] p_def [symmetric])
  from v_waiting have "waiting (snd (requestSlot options now s)) = []"
    by (simp add: result waiting_def)
  moreover from assms have "\<forall>j. Suc k \<le> j \<longrightarrow> ((promises s)(k := Fulfilled)) j = Pending"
    by (simp add: idle_def k_def)
  ultimately show "idle (snd (requestSlot options now s))"
    using rate by (simp add: idle_def result v_fields)
  show "nextRequest (snd (requestSlot options now s)) = Suc (nextRequest s)"
    and "promises (snd (requestSlot options now s)) = (promises s)(nextRequest s := Fulfilled)"
    and "continuations (snd (requestSlot options now s)) = continuations s @ [nextRequest s]"
    and "requestsPerSecond (snd (requestSlot options now s)) = requestsPerSecond s"
    by (simp_all add: result v_fields k_def)
qed

lemma burst_idle:
  assumes "idle s"
  shows "idle (run (replicate m (RequestSlot options now)) s)
       \<and> nextRequest (run (replicate m (RequestSlot options now)) s) = nextRequest s + m
       \<and> continuations (run (replicate m (RequestSlot options now)) s) =
           continuations s @ [nextRequest s ..< nextRequest s + m]
       \<and> (\<forall>j. promises (run (replicate m (RequestSlot options now)) s) j =
             (if nextRequest s \<le> j \<and> j < nextRequest s + m then Fulfilled else promises s j))
       \<and> requestsPerSecond (run (replicate m (RequestSlot options now)) s) = requestsPerSecond s"
  using assms
proof (induction m arbitrary: s)
  case 0
  then show ?case by auto
next
  case (Suc m)
  define s1 where "s1 = snd (requestSlot options now s)"
  from requestSlot_idle [OF Suc.prems, of options now]
  have one: "idle s1" "nextRequest s1 = Suc (nextRequest s)"
    "promises s1 = (promises s)(nextRequest s := Fulfilled)"
    "continuations s1 = continuations s @ [nextRequest s]"
    "requestsPerSecond s1 = requestsPerSecond s"
    by (simp_all add: s1_def)
  have range: "[nextRequest s] @ [Suc (nextRequest s) ..< Suc (nextRequest s) + m]
      = [nextRequest s ..< nextRequest s + Suc m]"
    by (simp add: upt_conv_Cons)
  from Suc.IH [OF one(1)] show ?case
    unfolding replicate_Suc run.simps step.simps s1_def [symmetric]
    unfolding one using range by auto
qed

lemma resume_all:
  assumes "length (continuations s) = m"
  shows "requestsRunning (run (replicate m (ResumeSlot now)) s) =
           requestsRunning s @ map (\<lambda>k. (k, \<lparr> startedAt = now, endedAt = None \<rparr>)) (continuations s)
       \<and> promises (run (replicate m (ResumeSlot now)) s) = promises s
       \<and> requestsPerSecond (run (replicate m (ResumeSlot now)) s) = requestsPerSecond s"
  using assms
proof (induction m arbitrary: s)
  case 0
  then show ?case by simp
next
  case (Suc m)
  then obtain k ks where ks: "continuations s = k # ks" and "length ks = m"
    by (cases "continuations s") auto
  then have "length (continuations (resumeSlot now s)) = m"
    by (simp add: resumeSlot_def)
  from Suc.IH [OF this] ks show ?case
    by (simp add: resumeSlot_def)
qed

lemma burst_all_granted:
  assumes "1 \<le> rps"
  shows "map fst (requestsRunning
            (run (replicate m (RequestSlot options now) @ replicate m (ResumeSlot now)) (initial rps)))
           = [0 ..< m]
       \<and> (\<forall>k<m. promises
            (run (replicate m (RequestSlot options now) @ replicate m (ResumeSlot now)) (initial rps)) k
           = Fulfilled)
       \<and> requestsPerSecond
            (run (replicate m (RequestSlot options now) @ replicate m (ResumeSlot now)) (initial rps))
           = rps"
proof -
  define s where "s = run (replicate m (RequestSlot options now)) (initial rps)"
  from assms have "idle (initial rps)"
    by (simp add: idle_def initial_def waiting_def)
  from burst_idle [OF this, of m options now]
  have granted: "continuations s = [0 ..< m]" "\<forall>k<m. promises s k = Fulfilled"
    "requestsPerSecond s = rps" "idle s"
    by (simp_all add: s_def initial_def)
  then have "length (continuations s) = m" and "requestsRunning s = []"
    by (simp_all add: idle_def)
  from resume_all [OF this(1), of now] this(2) granted show ?thesis
    unfolding run_append s_def [symmetric] by (simp add: comp_def)
qed

text \<open>
  What does hold: a request made when the Set, pruned, already holds as many requests as the
  rate allows is not granted; it waits in its lane and the loop goes to sleep.
\<close>

lemma full_limiter_keeps_request_waiting:
  assumes "waiting s = []" and "\<not> isProcessing s"
    and "requestsPerSecond s \<le> int (length (filter (\<lambda>(k, r). \<not> stale now r) (requestsRunning s)))"
  shows "promises (snd (requestSlot options now s)) = promises s
       \<and> waiting (snd (requestSlot options now s)) = [nextRequest s]
       \<and> sleeping (snd (requestSlot options now s)) = Some (now + 50)
       \<and> isProcessing (snd (requestSlot options now s))"
proof -
  define k where "k = nextRequest s"
  define p where "p = (case priority options of None \<Rightarrow> ''normal''
      | Some v \<Rightarrow> if v = [] then ''normal'' else v)"
  define e where "e = enqueue p k (s\<lparr> nextRequest := Suc k \<rparr>)"
  define t where "t = e\<lparr> isProcessing := True \<rparr>"
  from assms(1) have e_waiting: "waiting e = [k]"
    by (simp add: e_def enqueue_def waiting_def)
  then have t_waiting: "waiting t = [k]"
    by (simp add: t_def waiting_def)
  have t_fields: "requestsRunning t = requestsRunning s" "requestsPerSecond t = requestsPerSecond s"
    "promises t = promises s"
    by (simp_all add: t_def e_def enqueue_def)
  from assms(3) have none: "fst (getAvailableSlots now t) = 0"
    by (simp add: getAvailableSlots_def t_fields)
  from assms(2) have "\<not> isProcessing e"
    by (simp add: e_def enqueue_def)
  with e_waiting have "processQueue now e = processQueue_loop now t"
    by (simp add: processQueue_start t_def)
  also from t_waiting none
  have "\<dots> = (snd (getAvailableSlots now t))\<lparr> sleeping := Some (now + 50) \<rparr>"
    by (simp add: loop_sleep)
  finally have "snd (requestSlot options now s) =
      (snd (getAvailableSlots now t))\<lparr> sleeping := Some (now + 50),
        timeoutHandles := (timeoutHandles (snd (getAvailableSlots now t)))(k := Some (now +
           (case timeoutMs options of None \<Rightarrow> 60000
            | Some x \<Rightarrow> if x = 0 then 60000 else max 0 x))) \<rparr>"
    by (simp add: requestSlot_def Let_def k_def [symmetric] p_def [symmetric] e_def [symmetric])
  moreover have "waiting (snd (getAvailableSlots now t)) = [k]"
    "promises (snd (getAvailableSlots now t)) = promises s"
    "isProcessing (snd (getAvailableSlots now t))"
    using t_waiting by (simp_all add: getAvailableSlots_def waiting_def t_fields, simp add: t_def)
  ultimately show ?thesis
    by (simp add: waiting_def k_def)
qed

subsection \<open>Timeout\<close>

text \<open>
  C2, as stated, fails: nothing removes a timed-out request from its lane. At rate 1 with
  the slot taken, request 1 (\<open>timeoutMs = 10\<close>, made at \<open>5001\<close>) is rejected when its timer
  fires at \<open>5011\<close>, and is still in the normal lane then and after two further passes of
  the loop.
\<close>

theorem C2_counterexample:
  "timeoutHandles (run [RequestSlot \<lparr> priority = None, timeoutMs = None \<rparr> 5000, ResumeSlot 5000,
        RequestSlot \<lparr> priority = None, timeoutMs = Some 10 \<rparr> 5001] (initial 1)) 1 = Some 5011
   \<and> promises (run [RequestSlot \<lparr> priority = None, timeoutMs = None \<rparr> 5000, ResumeSlot 5000,
        RequestSlot \<lparr> priority = None, timeoutMs = Some 10 \<rparr> 5001] (initial 1)) 1 = Pending
   \<and> promises (run [RequestSlot \<lparr> priority = None, timeoutMs = None \<rparr> 5000, ResumeSlot 5000,
        RequestSlot \<lparr> priority = None, timeoutMs = Some 10 \<rparr> 5001,
        TimeoutFires 1 5011] (initial 1)) 1 = Rejected RequestTimeout
   \<and> requestsNormal (run [RequestSlot \<lparr> priority = None, timeoutMs = None \<rparr> 5000, ResumeSlot 5000,
        RequestSlot \<lparr> priority = None, timeoutMs = Some 10 \<rparr> 5001,
        TimeoutFires 1 5011] (initial 1)) = [1]
   \<and> requestsNormal (run [RequestSlot \<lparr> priority = None, timeoutMs = None \<rparr> 5000, ResumeSlot 5000,
        RequestSlot \<lparr> priority = None, timeoutMs = Some 10 \<rparr> 5001,
        TimeoutFires 1 5011, WakeUp 5051, WakeUp 5101] (initial 1)) = [1]"
  by (simp add: evaluate)

text \<open>
  C2, amended: in every state the limiter can reach, when the timeout timer of a request
  fires while its promise is pending, the promise is rejected with \<open>'request timeout'\<close>.
  The request is not removed: the three lanes are as before and the request is in one of
  them. Whatever happens afterwards, the promise stays rejected, \<open>requestSlot\<close> never
  resumes for it and it never enters \<open>requestsRunning\<close>: the \<open>resolve\<close> of the later
  dequeue does nothing.
\<close>

theorem C2_timeout_rejects_for_good:
  assumes "promises (run es0 (initial rps)) k = Pending"
    and "timeoutHandles (run es0 (initial rps)) k = Some due"
    and "due \<le> now"
  shows "promises (timeoutFires k now (run es0 (initial rps))) k = Rejected RequestTimeout
       \<and> k \<in> set (waiting (timeoutFires k now (run es0 (initial rps))))
       \<and> requestsHigh (timeoutFires k now (run es0 (initial rps))) = requestsHigh (run es0 (initial rps))
       \<and> requestsNormal (timeoutFires k now (run es0 (initial rps))) = requestsNormal (run es0 (initial rps))
       \<and> requestsLow (timeoutFires k now (run es0 (initial rps))) = requestsLow (run es0 (initial rps))
       \<and> promises (run es (timeoutFires k now (run es0 (initial rps)))) k = Rejected RequestTimeout
       \<and> k \<notin> set (continuations (run es (timeoutFires k now (run es0 (initial rps)))))
       \<and> k \<notin> fst ` set (requestsRunning (run es (timeoutFires k now (run es0 (initial rps)))))"
proof -
  define s where "s = run es0 (initial rps)"
  define s' where "s' = timeoutFires k now s"
  have inv: "consistent s"
    unfolding s_def by (rule consistent_run) (rule consistent_initial)
  from assms have pending: "promises s k = Pending" and armed: "timeoutHandles s k = Some due"
    by (simp_all add: s_def)
  from armed \<open>due \<le> now\<close> pending
  have s'_eq: "s' = s\<lparr> timeoutHandles := (timeoutHandles s)(k := None),
                        promises := (promises s)(k := Rejected RequestTimeout) \<rparr>"
    by (simp add: s'_def timeoutFires_def reject_def)
  then have rejected: "promises s' k = Rejected RequestTimeout"
    and lanes: "requestsHigh s' = requestsHigh s" "requestsNormal s' = requestsNormal s"
      "requestsLow s' = requestsLow s"
    by simp_all
  from inv armed have "k < nextRequest s"
    unfolding consistent_def by (metis not_le_imp_less option.distinct(1))
  with inv pending have "k \<in> set (waiting s)"
    by (simp add: consistent_def)
  with lanes have queued: "k \<in> set (waiting s')"
    by (simp add: waiting_def)
  from inv have "consistent s'"
    unfolding s'_def by (rule consistent_timeoutFires)
  then have inv': "consistent (run es s')"
    by (rule consistent_run)
  from rejected have stays: "promises (run es s') k = Rejected RequestTimeout"
    by (simp add: settled_run)
  with inv' have "k \<notin> set (continuations (run es s'))"
    and "k \<notin> fst ` set (requestsRunning (run es s'))"
    unfolding consistent_def by (metis promise.distinct(5))+
  with rejected queued lanes stays show ?thesis
    unfolding s'_def s_def by simp
qed

text \<open>
  C2, amended, at rate 1: request 1 times out at \<open>5011\<close> behind the running request 0;
  after the release of 0, a wake-up and a continuation it is still rejected and not running.
\<close>

theorem C2_timeout_rejects_for_good_witness:
  "promises (timeoutFires 1 5011
       (run [RequestSlot \<lparr> priority = None, timeoutMs = None \<rparr> 5000, ResumeSlot 5000,
             RequestSlot \<lparr> priority = None, timeoutMs = Some 10 \<rparr> 5001] (initial 1))) 1
     = Rejected RequestTimeout
   \<and> 1 \<in> set (waiting (timeoutFires 1 5011
       (run [RequestSlot \<lparr> priority = None, timeoutMs = None \<rparr> 5000, ResumeSlot 5000,
             RequestSlot \<lparr> priority = None, timeoutMs = Some 10 \<rparr> 5001] (initial 1))))
   \<and> promises (run [Release 0 5020, WakeUp 6051, ResumeSlot 6051] (timeoutFires 1 5011
       (run [RequestSlot \<lparr> priority = None, timeoutMs = None \<rparr> 5000, ResumeSlot 5000,
             RequestSlot \<lparr> priority = None, timeoutMs = Some 10 \<rparr> 5001] (initial 1)))) 1
     = Rejected RequestTimeout
   \<and> 1 \<notin> fst ` set (requestsRunning (run [Release 0 5020, WakeUp 6051, ResumeSlot 6051]
       (timeoutFires 1 5011
       (run [RequestSlot \<lparr> priority = None, timeoutMs = None \<rparr> 5000, ResumeSlot 5000,
             RequestSlot \<lparr> priority = None, timeoutMs = Some 10 \<rparr> 5001] (initial 1)))))"
proof -
  have pending: "promises (run [RequestSlot \<lparr> priority = None, timeoutMs = None \<rparr> 5000, ResumeSlot 5000,
             RequestSlot \<lparr> priority = None, timeoutMs = Some 10 \<rparr> 5001] (initial 1)) 1 = Pending"
    and armed: "timeoutHandles (run [RequestSlot \<lparr> priority = None, timeoutMs = None \<rparr> 5000, ResumeSlot 5000,
             RequestSlot \<lparr> priority = None, timeoutMs = Some 10 \<rparr> 5001] (initial 1)) 1 = Some 5011"
    and due: "(5011::int) \<le> 5011"
    by (simp_all add: evaluate)
  from C2_timeout_rejects_for_good [OF pending armed due,
      of "[Release 0 5020, WakeUp 6051, ResumeSlot 6051]"]
  show ?thesis by blast
qed

end
